theory Spec2Isabelle
  imports Main "HOL-Library.Char_ord" "HOL-Library.List_Lexorder" "HOL-Library.AList"
begin

section \<open>Strings\<close>

text \<open>
  The program works on Python \<open>str\<close> values. They are modelled as \<^typ>\<open>string\<close>: a
  character is the Unicode code point of its code, so the strings of the model are the
  strings over the code points 0 to 255 (ASCII and the Latin-1 supplement), compared as
  Python compares them, lexicographically by code point. The string methods are the
  Unicode-aware ones of Python, read on these code points:
  \<^item> \<open>str.isalpha\<close>: the ASCII letters, the ordinal indicators (170, 186), the micro sign
    (181) and the Latin-1 letters (192 to 255 without the signs 215 and 247);
  \<^item> \<open>str.isdigit\<close>: \<open>0\<close> to \<open>9\<close> and the superscripts two, three and one (178, 179, 185),
    which \<open>int\<close> does not accept;
  \<^item> the white space of \<open>str.strip\<close>: the codes 9 to 13 and 28 to 32, the next-line
    control (133) and the no-break space (160);
  \<^item> \<open>str.upper\<close>: a lower-case letter becomes its capital, the sharp s (223) becomes
    \<open>SS\<close>, every other character stays.
  Two code points have their capital outside this range: the micro sign (181, capital
  U+039C) and \<open>y\<close> with diaeresis (255, capital U+0178). \<open>upper_char\<close> leaves them as they
  are; strings that hold one of them are outside the model, and the theorems about all
  input strings say so (\<open>in_model\<close>).
\<close>

type_synonym pin = string
type_synonym conn = "pin \<times> pin"

definition isalpha :: "char \<Rightarrow> bool" where
  "isalpha c =
     (let n = (of_char c :: nat) in
      (65 \<le> n \<and> n \<le> 90) \<or> (97 \<le> n \<and> n \<le> 122) \<or> n = 170 \<or> n = 181 \<or> n = 186 \<or>
      (192 \<le> n \<and> n \<le> 214) \<or> (216 \<le> n \<and> n \<le> 246) \<or> (248 \<le> n \<and> n \<le> 255))"

definition isdigit :: "char \<Rightarrow> bool" where
  "isdigit c = (let n = (of_char c :: nat) in (48 \<le> n \<and> n \<le> 57) \<or> n = 178 \<or> n = 179 \<or> n = 185)"

text \<open>The decimal digits, the characters that \<open>int\<close> reads.\<close>

definition isdecimal :: "char \<Rightarrow> bool" where
  "isdecimal c = (let n = (of_char c :: nat) in 48 \<le> n \<and> n \<le> 57)"

definition isspace :: "char \<Rightarrow> bool" where
  "isspace c =
     (let n = (of_char c :: nat) in (9 \<le> n \<and> n \<le> 13) \<or> (28 \<le> n \<and> n \<le> 32) \<or> n = 133 \<or> n = 160)"

definition upper_char :: "char \<Rightarrow> string" where
  "upper_char c =
     (let n = (of_char c :: nat) in
      if (97 \<le> n \<and> n \<le> 122) \<or> (224 \<le> n \<and> n \<le> 246) \<or> (248 \<le> n \<and> n \<le> 254)
      then [char_of (n - 32)]
      else if n = 223 then ''SS''
      else [c])"

definition upper :: "string \<Rightarrow> string" where
  "upper s = concat (map upper_char s)"

definition strip :: "string \<Rightarrow> string" where
  "strip s = rev (dropWhile isspace (rev (dropWhile isspace s)))"

definition startswith :: "string \<Rightarrow> string \<Rightarrow> bool" where
  "startswith s p = (take (length p) s = p)"

text \<open>The exceptions of the program: \<open>int\<close> raises \<open>ValueError\<close>.\<close>

datatype error = ValueError

text \<open>
  An exception ends the operation that raised it: \<open>and_then r f\<close> goes on with \<open>f\<close> on
  the value of \<open>r\<close>, or is the exception of \<open>r\<close>.
\<close>

definition and_then :: "error + 'a \<Rightarrow> ('a \<Rightarrow> error + 'b) \<Rightarrow> error + 'b" where
  "and_then r f = (case r of Inl e \<Rightarrow> Inl e | Inr x \<Rightarrow> f x)"

text \<open>The value of a string of decimal digits.\<close>

definition int_of_digits :: "string \<Rightarrow> nat" where
  "int_of_digits s = foldl (\<lambda>a c. 10 * a + (of_char c - 48)) 0 s"

text \<open>
  \<open>int(s)\<close> on a string of characters that \<open>str.isdigit\<close> accepts: the value when all
  of them are decimal digits, \<open>ValueError\<close> on a superscript digit (and on the empty
  string).
\<close>

definition int_of_str :: "string \<Rightarrow> error + nat" where
  "int_of_str s = (if s \<noteq> [] \<and> list_all isdecimal s then Inr (int_of_digits s) else Inl ValueError)"

text \<open>\<open>str(n)\<close>, as the f-strings render an integer.\<close>

fun str_nat :: "nat \<Rightarrow> string" where
  "str_nat n = (if n < 10 then [char_of (48 + n)] else str_nat (n div 10) @ [char_of (48 + n mod 10)])"

definition str_int :: "int \<Rightarrow> string" where
  "str_int i = (if i < 0 then CHR ''-'' # str_nat (nat (- i)) else str_nat (nat i))"

text \<open>The format \<open>{num:02d}\<close> of a number that is not negative.\<close>

definition fmt_02d :: "nat \<Rightarrow> string" where
  "fmt_02d n = (let s = str_nat n in replicate (2 - length s) CHR ''0'' @ s)"

text \<open>\<open>sorted([a, b])\<close> as a pair: the canonical form of a connection.\<close>

definition sorted_pair :: "pin \<Rightarrow> pin \<Rightarrow> conn" where
  "sorted_pair a b = (if b < a then (b, a) else (a, b))"

section \<open>Components\<close>

definition normalize_ref :: "string \<Rightarrow> error + string" where
  "normalize_ref ref0 =
     (let ref = strip (upper ref0);
          prefix = filter isalpha ref;
          num_str = filter isdigit ref
      in if prefix \<noteq> [] \<and> num_str \<noteq> [] then
           and_then (int_of_str num_str) (\<lambda>num.
             if num < 10 then Inr (prefix @ fmt_02d num) else Inr ref)
         else Inr ref)"

definition get_component_type :: "string \<Rightarrow> string" where
  "get_component_type ref =
     (let prefix = upper (filter isalpha ref) in
      case map_of [(''R'', ''resistor''), (''C'', ''capacitor''), (''L'', ''inductor''),
                   (''D'', ''diode''), (''Q'', ''transistor''), (''U'', ''ic''),
                   (''J'', ''connector''), (''T'', ''transformer''), (''F'', ''fuse''),
                   (''SW'', ''switch''), (''LED'', ''led''), (''TP'', ''testpoint'')] prefix of
        Some t \<Rightarrow> t
      | None \<Rightarrow> ''other'')"

definition get_default_pins :: "string \<Rightarrow> int" where
  "get_default_pins ref =
     (let comp_type = get_component_type ref in
      case map_of [(''resistor'', 2), (''capacitor'', 2), (''inductor'', 2), (''diode'', 2),
                   (''led'', 2), (''fuse'', 2), (''transistor'', 3), (''testpoint'', 1)] comp_type of
        Some n \<Rightarrow> n
      | None \<Rightarrow> 2)"

text \<open>
  A component is the dictionary stored under its reference. The dictionary of measured
  values plays no part in the connectivity model and is left out.
\<close>

record component =
  c_pins :: int
  c_value :: string
  c_package :: string
  c_description :: string
  c_type :: string

text \<open>
  The project: \<open>components\<close> is a Python dict (insertion ordered, one entry per key),
  \<open>connections\<close> a Python set of 2-tuples, \<open>net_names\<close> a dict from root key to name.
\<close>

record project =
  components :: "(string \<times> component) list"
  connections :: "conn set"
  net_names :: "(string \<times> string) list"

definition empty_project :: project where
  "empty_project = \<lparr>components = [], connections = {}, net_names = []\<rparr>"

text \<open>
  The operations of the project return \<open>Inr\<close> with their result and the project they
  leave, or \<open>Inl\<close> with the exception that ended them.

  \<open>add_component(ref, pins)\<close> with value, package and description at their defaults
  (\<open>"?"\<close>, \<open>"?"\<close>, \<open>""\<close>); \<open>smart_format_value\<close> returns the value \<open>"?"\<close> as it is.
\<close>

definition add_component :: "project \<Rightarrow> string \<Rightarrow> int option \<Rightarrow> error + project" where
  "add_component st ref0 pins0 =
     and_then (normalize_ref ref0) (\<lambda>ref.
       (let comp_type = get_component_type ref;
            pins = (case pins0 of None \<Rightarrow> get_default_pins ref | Some n \<Rightarrow> n)
        in Inr (st\<lparr>components := AList.update ref
                   \<lparr>c_pins = pins, c_value = ''?'', c_package = ''?'', c_description = '''',
                    c_type = comp_type\<rparr> (components st)\<rparr>)))"

text \<open>\<open>edit_component(ref, "pins", value)\<close>, the value already an integer.\<close>

definition edit_component_pins :: "project \<Rightarrow> string \<Rightarrow> int \<Rightarrow> error + bool \<times> project" where
  "edit_component_pins st ref0 n =
     and_then (normalize_ref ref0) (\<lambda>ref.
       case map_of (components st) ref of
         None \<Rightarrow> Inr (False, st)
       | Some info \<Rightarrow>
           Inr (True, st\<lparr>components := AList.update ref (info\<lparr>c_pins := n\<rparr>) (components st)\<rparr>))"

definition delete_component :: "project \<Rightarrow> string \<Rightarrow> error + bool \<times> project" where
  "delete_component st ref0 =
     and_then (normalize_ref ref0) (\<lambda>ref.
       if map_of (components st) ref = None then Inr (False, st)
       else Inr (True,
            st\<lparr>connections :=
                 Set.filter (\<lambda>c. \<not> (startswith (fst c) (ref @ ''-'') \<or> startswith (snd c) (ref @ ''-'')))
                   (connections st),
               components := AList.delete ref (components st)\<rparr>))"

section \<open>Pins\<close>

text \<open>\<open>ref in self.components and self.components[ref].get("pins") == 1\<close>\<close>

definition single_pin :: "(string \<times> component) list \<Rightarrow> string \<Rightarrow> bool" where
  "single_pin comps ref = (case map_of comps ref of None \<Rightarrow> False | Some info \<Rightarrow> c_pins info = 1)"

text \<open>\<open>s.split(sep, 1)\<close>\<close>

definition split_once :: "char \<Rightarrow> string \<Rightarrow> string list" where
  "split_once sep s =
     (if sep \<in> set s then [takeWhile (\<lambda>c. c \<noteq> sep) s, tl (dropWhile (\<lambda>c. c \<noteq> sep) s)] else [s])"

text \<open>
  What the loop of \<open>parse_pin\<close> returns once the token is split into the parts \<open>a\<close> and
  \<open>b\<close>.
\<close>

definition parsed_parts :: "(string \<times> component) list \<Rightarrow> string \<Rightarrow> string \<Rightarrow> error + (string \<times> string option) option" where
  "parsed_parts comps a b =
     and_then (normalize_ref a) (\<lambda>ref.
       (let pin = strip b;
            pin = (if upper pin = ''TAB'' then ''TAB'' else pin)
        in if single_pin comps ref then Inr (Some (ref, None)) else Inr (Some (ref, Some pin))))"

text \<open>
  The loop of \<open>parse_pin\<close> over the separators; \<open>None\<close> when no separator made it return.
\<close>

fun parse_seps :: "(string \<times> component) list \<Rightarrow> string \<Rightarrow> char list \<Rightarrow> error + (string \<times> string option) option" where
  "parse_seps comps pin_str [] = Inr None"
| "parse_seps comps pin_str (sep # seps) =
     (if sep \<in> set pin_str then
        (let parts = split_once sep pin_str in
         if length parts = 2 then parsed_parts comps (parts ! 0) (parts ! 1)
         else parse_seps comps pin_str seps)
      else parse_seps comps pin_str seps)"

definition parse_pin :: "(string \<times> component) list \<Rightarrow> string \<Rightarrow> error + (string \<times> string option) option" where
  "parse_pin comps pin_str0 =
     (let pin_str = strip (upper pin_str0) in
      if single_pin comps pin_str then Inr (Some (pin_str, None))
      else and_then (parse_seps comps pin_str ''-._'') (\<lambda>found.
             case found of
               Some r \<Rightarrow> Inr (Some r)
             | None \<Rightarrow>
                 and_then (normalize_ref pin_str) (\<lambda>normalized.
                   if single_pin comps normalized then Inr (Some (normalized, None)) else Inr None)))"

text \<open>\<open>format_pin\<close> on a parsed pin (the callers pass no \<open>None\<close>).\<close>

definition format_pin :: "string \<times> string option \<Rightarrow> pin" where
  "format_pin p = (case snd p of None \<Rightarrow> fst p | Some l \<Rightarrow> fst p @ ''-'' @ l)"

section \<open>Connection store\<close>

text \<open>\<open>if ref not in self.components: self.add_component(ref)\<close>\<close>

definition auto_add :: "project \<Rightarrow> string \<Rightarrow> error + project" where
  "auto_add st ref = (if map_of (components st) ref = None then add_component st ref None else Inr st)"

definition add_connection :: "project \<Rightarrow> string \<Rightarrow> string \<Rightarrow> error + bool \<times> project" where
  "add_connection st pin1 pin2 =
     and_then (parse_pin (components st) pin1) (\<lambda>q1.
     and_then (parse_pin (components st) pin2) (\<lambda>q2.
       case (q1, q2) of
         (Some p1, Some p2) \<Rightarrow>
           and_then (auto_add st (fst p1)) (\<lambda>st0.
           and_then (auto_add st0 (fst p2)) (\<lambda>st1.
             (let pin1_str = format_pin p1;
                  pin2_str = format_pin p2;
                  conn = sorted_pair pin1_str pin2_str
              in if conn \<in> connections st1 then Inr (False, st1)
                 else Inr (True, st1\<lparr>connections := insert conn (connections st1)\<rparr>))))
       | _ \<Rightarrow> Inr (False, st)))"

text \<open>The spellings tried for one endpoint by \<open>delete_connection\<close>.\<close>

definition alt_variants :: "string \<times> string option \<Rightarrow> pin \<Rightarrow> pin list" where
  "alt_variants p ps = (if snd p = None then [ps, fst p @ ''-1''] else [ps])"

definition delete_connection :: "project \<Rightarrow> string \<Rightarrow> string \<Rightarrow> error + bool \<times> project" where
  "delete_connection st pin1 pin2 =
     and_then (parse_pin (components st) pin1) (\<lambda>q1.
     and_then (parse_pin (components st) pin2) (\<lambda>q2.
       case (q1, q2) of
         (Some p1, Some p2) \<Rightarrow>
           (let pin1_str = format_pin p1;
                pin2_str = format_pin p2;
                conn = sorted_pair pin1_str pin2_str
            in if conn \<in> connections st then Inr (True, st\<lparr>connections := connections st - {conn}\<rparr>)
               else
                 (case List.find (\<lambda>alt_conn. alt_conn \<in> connections st)
                         (concat (map (\<lambda>v1. map (\<lambda>v2. sorted_pair v1 v2) (alt_variants p2 pin2_str))
                                    (alt_variants p1 pin1_str))) of
                    Some alt_conn \<Rightarrow> Inr (True, st\<lparr>connections := connections st - {alt_conn}\<rparr>)
                  | None \<Rightarrow> Inr (False, st)))
       | _ \<Rightarrow> Inr (False, st)))"

text \<open>
  A Python set is iterated in an order the language does not fix. The operations that loop
  over the store and whose steps depend on one another take that order as the argument
  \<open>order\<close>: a list without repetitions of the pairs of the store.
\<close>

definition iteration_of :: "conn list \<Rightarrow> conn set \<Rightarrow> bool" where
  "iteration_of order cs = (set order = cs \<and> distinct order)"

text \<open>\<open>x in conn\<close> for a 2-tuple.\<close>

definition in_conn :: "pin \<Rightarrow> conn \<Rightarrow> bool" where
  "in_conn x c = (x = fst c \<or> x = snd c)"

text \<open>The replacement of one endpoint in the update loop of \<open>merge_pins\<close>.\<close>

definition replace_pin :: "pin \<Rightarrow> string \<Rightarrow> pin \<Rightarrow> pin \<Rightarrow> pin" where
  "replace_pin from_str from_ref to_str pin =
     (if pin = from_str \<or> pin = from_ref @ ''-1'' then to_str else pin)"

text \<open>One turn of the update loop of \<open>merge_pins\<close>, on the store and the count.\<close>

definition merge_step :: "pin \<Rightarrow> string \<Rightarrow> pin \<Rightarrow> conn \<Rightarrow> conn set \<times> nat \<Rightarrow> conn set \<times> nat" where
  "merge_step from_str from_ref to_str c acc =
     (let conns = fst acc - {c};
          new_conn = sorted_pair (replace_pin from_str from_ref to_str (fst c))
                                 (replace_pin from_str from_ref to_str (snd c))
      in if fst new_conn \<noteq> snd new_conn then
           (if new_conn \<notin> conns then (insert new_conn conns, snd acc + 1) else (conns, snd acc))
         else (conns, snd acc))"

text \<open>
  \<open>merge_pins\<close> returns its boolean, the count it prints (none on the paths that print
  no count) and the project.
\<close>

definition merge_pins :: "project \<Rightarrow> conn list \<Rightarrow> string \<Rightarrow> string \<Rightarrow> error + bool \<times> nat option \<times> project" where
  "merge_pins st order from_pin to_pin =
     and_then (parse_pin (components st) from_pin) (\<lambda>q_from.
     and_then (parse_pin (components st) to_pin) (\<lambda>q_to.
       case (q_from, q_to) of
         (Some p_from, Some p_to) \<Rightarrow>
           (let from_str = format_pin p_from;
                to_str = format_pin p_to;
                to_update = filter (\<lambda>c. in_conn from_str c \<or>
                                          (snd p_from = None \<and> in_conn (fst p_from @ ''-1'') c)) order
            in if to_update = [] then Inr (False, None, st)
               else
                 (let r = fold (merge_step from_str (fst p_from) to_str) to_update (connections st, 0)
                  in Inr (True, Some (snd r), st\<lparr>connections := fst r\<rparr>)))
       | _ \<Rightarrow> Inr (False, None, st)))"

definition delete_pin_connections :: "project \<Rightarrow> string \<Rightarrow> error + bool \<times> project" where
  "delete_pin_connections st pin0 =
     and_then (parse_pin (components st) pin0) (\<lambda>q.
       case q of
         None \<Rightarrow> Inr (False, st)
       | Some p \<Rightarrow>
           (let pin_str = format_pin p;
                to_remove = Set.filter (\<lambda>c. in_conn pin_str c \<or>
                                             (snd p = None \<and> in_conn (fst p @ ''-1'') c)) (connections st)
            in if to_remove = {} then Inr (False, st)
               else Inr (True, st\<lparr>connections := connections st - to_remove\<rparr>)))"

section \<open>Net building\<close>

text \<open>
  The union-find of \<open>build_nets\<close>. \<open>parent\<close> is the dict of the closure; \<open>find\<close> adds a
  missing key as its own parent, follows the parents recursively and compresses the path.
  The recursion ends only when the parents lead to a root, so the function returns an
  option: \<open>None\<close> is a call that does not return. The bound that the interpreter puts
  on the depth of the recursion is not part of the model.
\<close>

partial_function (option) find_uf :: "(pin \<rightharpoonup> pin) \<Rightarrow> pin \<Rightarrow> ((pin \<rightharpoonup> pin) \<times> pin) option" where
  "find_uf parent x =
     (let parent1 = (if parent x = None then parent(x \<mapsto> x) else parent);
          px = (case parent1 x of None \<Rightarrow> x | Some y \<Rightarrow> y)
      in if px \<noteq> x then
           Option.bind (find_uf parent1 px) (\<lambda>r. Some ((fst r)(x \<mapsto> snd r), snd r))
         else Some (parent1, px))"

declare find_uf.simps [code]

definition union_uf :: "(pin \<rightharpoonup> pin) \<Rightarrow> pin \<Rightarrow> pin \<Rightarrow> (pin \<rightharpoonup> pin) option" where
  "union_uf parent x y =
     Option.bind (find_uf parent x) (\<lambda>rx.
     Option.bind (find_uf (fst rx) y) (\<lambda>ry.
       Some (if snd rx \<noteq> snd ry then (fst ry)(snd rx \<mapsto> snd ry) else fst ry)))"

text \<open>First loop: \<open>for conn in self.connections: union(conn[0], conn[1])\<close>\<close>

fun union_all :: "(pin \<rightharpoonup> pin) \<Rightarrow> conn list \<Rightarrow> (pin \<rightharpoonup> pin) option" where
  "union_all parent [] = Some parent"
| "union_all parent (c # cs) = Option.bind (union_uf parent (fst c) (snd c)) (\<lambda>p. union_all p cs)"

text \<open>
  \<open>nets[root].add(pin)\<close> on the \<open>defaultdict(set)\<close>: a missing key starts from the empty
  set and is added at the end of the dict.
\<close>

definition nets_add :: "(pin \<times> pin set) list \<Rightarrow> pin \<Rightarrow> pin \<Rightarrow> (pin \<times> pin set) list" where
  "nets_add nets root p =
     AList.update root (insert p (case map_of nets root of None \<Rightarrow> {} | Some s \<Rightarrow> s)) nets"

definition group_pin :: "(pin \<rightharpoonup> pin) \<times> (pin \<times> pin set) list \<Rightarrow> pin \<Rightarrow> ((pin \<rightharpoonup> pin) \<times> (pin \<times> pin set) list) option" where
  "group_pin acc p =
     Option.bind (find_uf (fst acc) p) (\<lambda>r. Some (fst r, nets_add (snd acc) (snd r) p))"

text \<open>Second loop: \<open>for conn in self.connections: for pin in conn: ...\<close>\<close>

fun group_all :: "(pin \<rightharpoonup> pin) \<times> (pin \<times> pin set) list \<Rightarrow> conn list \<Rightarrow> ((pin \<rightharpoonup> pin) \<times> (pin \<times> pin set) list) option" where
  "group_all acc [] = Some acc"
| "group_all acc (c # cs) =
     Option.bind (group_pin acc (fst c)) (\<lambda>acc1.
     Option.bind (group_pin acc1 (snd c)) (\<lambda>acc2. group_all acc2 cs))"

definition build_nets :: "conn list \<Rightarrow> (pin \<times> pin set) list option" where
  "build_nets order =
     Option.bind (union_all Map.empty order) (\<lambda>parent.
     Option.bind (group_all (parent, []) order) (\<lambda>acc. Some (snd acc)))"

text \<open>The rendering of a pin label in an f-string: \<open>None\<close> prints as \<open>None\<close>.\<close>

definition label_str :: "string option \<Rightarrow> string" where
  "label_str l = (case l of None \<Rightarrow> ''None'' | Some s \<Rightarrow> s)"

text \<open>
  \<open>name_net\<close>: \<open>None\<close> when \<open>build_nets\<close> does not return, else the exception or the
  result.
\<close>

definition name_net :: "project \<Rightarrow> conn list \<Rightarrow> string \<Rightarrow> string \<Rightarrow> (error + bool \<times> project) option" where
  "name_net st order pin0 name =
     (case parse_pin (components st) pin0 of
        Inl e \<Rightarrow> Some (Inl e)
      | Inr None \<Rightarrow> Some (Inr (False, st))
      | Inr (Some p) \<Rightarrow>
          Option.bind (build_nets order) (\<lambda>nets.
            (let pin_str = fst p @ ''-'' @ label_str (snd p) in
             case List.find (\<lambda>net. pin_str \<in> snd net) nets of
               Some net \<Rightarrow>
                 Some (Inr (True, st\<lparr>net_names := AList.update (fst net) name (net_names st)\<rparr>))
             | None \<Rightarrow> Some (Inr (False, st)))))"

section \<open>Remaining pins\<close>

definition endpoints :: "conn set \<Rightarrow> pin set" where
  "endpoints cs = fst ` cs \<union> snd ` cs"

text \<open>The body of the loop over the components, for one item of the dict.\<close>

definition remaining_of :: "pin set \<Rightarrow> string option \<Rightarrow> string \<times> component \<Rightarrow> (string \<times> int \<times> string) list" where
  "remaining_of connected filter_prefix item =
     (let ref = fst item; info = snd item in
      if c_pins info \<le> 1 then []
      else if (case filter_prefix of None \<Rightarrow> False
               | Some f \<Rightarrow> f \<noteq> [] \<and> \<not> startswith ref (upper f)) then []
      else map (\<lambda>pin_num. (ref, pin_num, c_value info))
             (filter (\<lambda>pin_num. ref @ ''-'' @ str_int pin_num \<notin> connected) [1..c_pins info]))"

definition get_remaining_pins :: "project \<Rightarrow> string option \<Rightarrow> (string \<times> int \<times> string) list" where
  "get_remaining_pins st filter_prefix =
     (let connected = endpoints (connections st) in
      concat (map (remaining_of connected filter_prefix) (sort_key fst (components st))))"

section \<open>Notions of the specification\<close>

text \<open>
  The specification splits a reference into its leading alphabetic run and its trailing
  numeric run. The two runs, following its words:
\<close>

definition leading_alpha_run :: "string \<Rightarrow> string" where
  "leading_alpha_run s = takeWhile isalpha s"

definition trailing_digit_run :: "string \<Rightarrow> string" where
  "trailing_digit_run s = rev (takeWhile isdigit (rev s))"

text \<open>The nets of a result of \<open>build_nets\<close>, without their root keys.\<close>

definition member_sets :: "(pin \<times> pin set) list \<Rightarrow> pin set set" where
  "member_sets nets = snd ` set nets"

text \<open>
  The strings the model reads as Python does: no micro sign and no \<open>y\<close> with diaeresis,
  whose capitals lie beyond the code point 255.
\<close>

definition in_model :: "string \<Rightarrow> bool" where
  "in_model s = list_all (\<lambda>c. (of_char c :: nat) \<noteq> 181 \<and> (of_char c :: nat) \<noteq> 255) s"

text \<open>A reference or a pin label written with ASCII letters and decimal digits only.\<close>

definition alnum :: "string \<Rightarrow> bool" where
  "alnum s = list_all (\<lambda>c. (isalpha c \<or> isdigit c) \<and> (of_char c :: nat) < 128) s"

text \<open>
  A reference passes the optional prefix filter of \<open>get_remaining_pins\<close> when no filter
  is given or the reference starts with the uppercased filter.
\<close>

definition passes_filter :: "string option \<Rightarrow> string \<Rightarrow> bool" where
  "passes_filter filter_prefix ref =
     (case filter_prefix of None \<Rightarrow> True | Some f \<Rightarrow> startswith ref (upper f))"

text \<open>
  The union-find forest. \<open>root_of parent x r\<close>: following the parents from \<open>x\<close> ends at
  the root \<open>r\<close>; a key that is absent counts as its own root, as \<open>find\<close> will make it.
  A forest is \<open>rooted\<close> when every pin reaches a root, \<open>rep_of\<close> names that root, and a
  later forest \<open>keeps_roots\<close> when no pin changes its root.
\<close>

inductive root_of :: "(pin \<rightharpoonup> pin) \<Rightarrow> pin \<Rightarrow> pin \<Rightarrow> bool" for parent where
  absent: "parent x = None \<Longrightarrow> root_of parent x x"
| self: "parent x = Some x \<Longrightarrow> root_of parent x x"
| step: "parent x = Some y \<Longrightarrow> y \<noteq> x \<Longrightarrow> root_of parent y r \<Longrightarrow> root_of parent x r"

definition rooted :: "(pin \<rightharpoonup> pin) \<Rightarrow> bool" where
  "rooted parent = (\<forall>x. \<exists>r. root_of parent x r)"

definition keeps_roots :: "(pin \<rightharpoonup> pin) \<Rightarrow> (pin \<rightharpoonup> pin) \<Rightarrow> bool" where
  "keeps_roots parent parent' = (\<forall>x r. root_of parent x r \<longrightarrow> root_of parent' x r)"

definition rep_of :: "(pin \<rightharpoonup> pin) \<Rightarrow> pin \<Rightarrow> pin" where
  "rep_of parent x = (THE r. root_of parent x r)"

text \<open>
  The grouping loop of \<open>build_nets\<close> keeps this: after the pins \<open>S\<close>, the dict has one
  entry for each root of a pin of \<open>S\<close>, holding the pins of \<open>S\<close> with that root.
\<close>

definition nets_ok :: "(pin \<Rightarrow> pin) \<Rightarrow> pin set \<Rightarrow> (pin \<times> pin set) list \<Rightarrow> bool" where
  "nets_ok \<rho> S nets =
     (distinct (map fst nets) \<and>
      (\<forall>k. map_of nets k = (if k \<in> \<rho> ` S then Some {x \<in> S. \<rho> x = k} else None)))"

text \<open>
  The store invariants of the specification: every pair is stored sorted, so that no two
  entries are permutations of one pair, and no pair joins a pin to itself. The states the
  four mutators reach from the empty project:
\<close>

definition canonical :: "conn set \<Rightarrow> bool" where
  "canonical cs = (\<forall>c\<in>cs. fst c \<le> snd c)"

definition no_self_loop :: "conn set \<Rightarrow> bool" where
  "no_self_loop cs = (\<forall>c\<in>cs. fst c \<noteq> snd c)"

inductive reachable :: "project \<Rightarrow> bool" where
  init: "reachable empty_project"
| add: "reachable st \<Longrightarrow> add_connection st a b = Inr (ok, st') \<Longrightarrow> reachable st'"
| delete: "reachable st \<Longrightarrow> delete_connection st a b = Inr (ok, st') \<Longrightarrow> reachable st'"
| merge: "reachable st \<Longrightarrow> iteration_of order (connections st) \<Longrightarrow>
          merge_pins st order a b = Inr (ok, count, st') \<Longrightarrow> reachable st'"
| delete_pin: "reachable st \<Longrightarrow> delete_pin_connections st a = Inr (ok, st') \<Longrightarrow> reachable st'"

section \<open>Example projects\<close>

text \<open>The dict that \<open>add_component\<close> stores for a component of a type and a pin count.\<close>

definition stored :: "string \<Rightarrow> int \<Rightarrow> component" where
  "stored t n = \<lparr>c_pins = n, c_value = ''?'', c_package = ''?'', c_description = '''', c_type = t\<rparr>"

text \<open>
  The pair \<open>A-1~B-1\<close>, then the pairs \<open>A-1~B-1\<close> and \<open>B-1~C-1\<close>, then the project after
  \<open>A-1~B-1\<close> is removed.
\<close>

definition split_first :: project where
  "split_first =
     \<lparr>components = [(''A'', stored ''other'' 2), (''B'', stored ''other'' 2)],
      connections = {(''A-1'', ''B-1'')}, net_names = []\<rparr>"

definition split_before :: project where
  "split_before =
     \<lparr>components = [(''A'', stored ''other'' 2), (''B'', stored ''other'' 2),
                     (''C'', stored ''capacitor'' 2)],
      connections = {(''A-1'', ''B-1''), (''B-1'', ''C-1'')}, net_names = []\<rparr>"

definition split_after :: project where
  "split_after =
     \<lparr>components = [(''A'', stored ''other'' 2), (''B'', stored ''other'' 2),
                     (''C'', stored ''capacitor'' 2)],
      connections = {(''B-1'', ''C-1'')}, net_names = []\<rparr>"

text \<open>A ground symbol declared with one pin, then connected to pin 1 of a resistor.\<close>

definition gnd_declared :: project where
  "gnd_declared = \<lparr>components = [(''GND'', stored ''other'' 1)], connections = {}, net_names = []\<rparr>"

definition gnd_project :: project where
  "gnd_project =
     \<lparr>components = [(''GND'', stored ''other'' 1), (''R01'', stored ''resistor'' 2)],
      connections = {(''GND'', ''R01-1'')}, net_names = []\<rparr>"

text \<open>A transistor whose pin 1 is tied to its tab.\<close>

definition tab_project :: project where
  "tab_project =
     \<lparr>components = [(''Q14'', stored ''transistor'' 3)],
      connections = {(''Q14-1'', ''Q14-TAB'')}, net_names = []\<rparr>"

text \<open>
  A store with the pair \<open>GND~GND-1\<close>: \<open>GND-1~X-1\<close> is recorded while \<open>GND\<close> has two
  pins, \<open>GND\<close> is then declared with one pin and \<open>X-1\<close> is merged into it.
\<close>

definition bare_added :: project where
  "bare_added = \<lparr>components = [(''GND'', stored ''other'' 2)], connections = {}, net_names = []\<rparr>"

definition bare_connected :: project where
  "bare_connected =
     \<lparr>components = [(''GND'', stored ''other'' 2), (''X'', stored ''other'' 2)],
      connections = {(''GND-1'', ''X-1'')}, net_names = []\<rparr>"

definition bare_edited :: project where
  "bare_edited =
     \<lparr>components = [(''GND'', stored ''other'' 1), (''X'', stored ''other'' 2)],
      connections = {(''GND-1'', ''X-1'')}, net_names = []\<rparr>"

definition bare_project :: project where
  "bare_project =
     \<lparr>components = [(''GND'', stored ''other'' 1), (''X'', stored ''other'' 2)],
      connections = {(''GND'', ''GND-1'')}, net_names = []\<rparr>"

text \<open>A transistor with three pins, pin 1 connected.\<close>

definition q_declared :: project where
  "q_declared = \<lparr>components = [(''Q01'', stored ''transistor'' 3)], connections = {}, net_names = []\<rparr>"

definition q_project :: project where
  "q_project =
     \<lparr>components = [(''Q01'', stored ''transistor'' 3), (''R01'', stored ''resistor'' 2)],
      connections = {(''Q01-1'', ''R01-1'')}, net_names = []\<rparr>"

text \<open>A resistor, with the two pins of its type.\<close>

definition resistor_project :: project where
  "resistor_project = \<lparr>components = [(''R01'', stored ''resistor'' 2)], connections = {}, net_names = []\<rparr>"

section \<open>Characters and strings: basic facts\<close>

declare str_nat.simps [simp del]

lemma and_then_Inr: "and_then (Inr x) f = f x"
  by (simp add: and_then_def)

lemma and_then_Inl: "and_then (Inl e) f = Inl e"
  by (simp add: and_then_def)

lemma and_then_eq_Inr:
  "and_then r f = Inr y \<longleftrightarrow> (\<exists>x. r = Inr x \<and> f x = Inr y)"
  by (cases r) (simp_all add: and_then_def)

lemma upper_char_fixed: "c' \<in> set (upper_char c) \<Longrightarrow> upper_char c' = [c']"
  by (auto simp: upper_char_def Let_def split: if_splits)

lemma upper_of_fixed: "\<forall>c\<in>set r. upper_char c = [c] \<Longrightarrow> upper r = r"
  by (induction r) (simp_all add: upper_def)

lemma upper_chars_fixed: "c \<in> set (upper s) \<Longrightarrow> upper_char c = [c]"
  by (auto simp: upper_def dest: upper_char_fixed)

lemma upper_idem: "upper (upper s) = upper s"
  by (rule upper_of_fixed) (simp add: upper_chars_fixed)

lemma upper_append: "upper (a @ b) = upper a @ upper b"
  by (simp add: upper_def)

lemma isdigit_upper_char_id: "isdigit c \<Longrightarrow> upper_char c = [c]"
  by (auto simp: upper_char_def isdigit_def Let_def)

lemma alpha_not_space: "isalpha c \<Longrightarrow> \<not> isspace c"
  by (auto simp: isalpha_def isspace_def Let_def)

lemma digit_not_space: "isdigit c \<Longrightarrow> \<not> isspace c"
  by (auto simp: isdigit_def isspace_def Let_def)

lemma alpha_not_digit: "isalpha c \<Longrightarrow> \<not> isdigit c"
  by (auto simp: isdigit_def isalpha_def Let_def)

lemma decimal_digit: "isdecimal c \<Longrightarrow> isdigit c"
  by (auto simp: isdigit_def isdecimal_def Let_def)

lemma last_dropWhile_keep: "dropWhile P xs \<noteq> [] \<Longrightarrow> last (dropWhile P xs) = last xs"
  by (induction xs) (auto split: if_splits)

lemma set_strip: "set (strip s) \<subseteq> set s"
proof
  fix c
  assume "c \<in> set (strip s)"
  then have "c \<in> set (dropWhile isspace (rev (dropWhile isspace s)))" by (simp add: strip_def)
  then have "c \<in> set (rev (dropWhile isspace s))" by (rule set_dropWhileD)
  then have "c \<in> set (dropWhile isspace s)" by simp
  then show "c \<in> set s" by (rule set_dropWhileD)
qed

lemma strip_fixed:
  assumes "s = [] \<or> (\<not> isspace (hd s) \<and> \<not> isspace (last s))"
  shows "strip s = s"
proof (cases "s = []")
  case True
  then show ?thesis by (simp add: strip_def)
next
  case False
  with assms have h: "\<not> isspace (hd s)" and l: "\<not> isspace (last s)" by auto
  from False h have a: "dropWhile isspace s = s"
    by (cases s) auto
  from False l have b: "dropWhile isspace (rev s) = rev s"
    by (cases "rev s") (auto simp: hd_rev)
  show ?thesis by (simp add: strip_def a b)
qed

lemma strip_ends:
  "strip s = [] \<or> (\<not> isspace (hd (strip s)) \<and> \<not> isspace (last (strip s)))"
proof (cases "strip s = []")
  case True
  then show ?thesis by simp
next
  case False
  define u where "u = dropWhile isspace s"
  define v where "v = dropWhile isspace (rev u)"
  have sv: "strip s = rev v" by (simp add: strip_def u_def v_def)
  with False have vne: "v \<noteq> []" by simp
  then have une: "u \<noteq> []" by (auto simp: v_def)
  have "\<not> isspace (hd v)" using vne unfolding v_def by (rule hd_dropWhile)
  then have l: "\<not> isspace (last (strip s))" by (simp add: sv last_rev vne)
  have "last v = last (rev u)" using vne unfolding v_def by (rule last_dropWhile_keep)
  then have "hd (strip s) = hd u" by (simp add: sv hd_rev last_rev une vne)
  moreover have "\<not> isspace (hd u)" using une unfolding u_def by (rule hd_dropWhile)
  ultimately show ?thesis using l by simp
qed

lemma strip_idem: "strip (strip s) = strip s"
  by (rule strip_fixed) (rule strip_ends)

lemma upper_strip_upper: "upper (strip (upper x)) = strip (upper x)"
proof (rule upper_of_fixed, rule ballI)
  fix c
  assume "c \<in> set (strip (upper x))"
  with set_strip have "c \<in> set (upper x)" by blast
  then show "upper_char c = [c]" by (rule upper_chars_fixed)
qed

lemma strip_upper_fixed: "strip (upper (strip (upper x))) = strip (upper x)"
  by (simp add: upper_strip_upper strip_idem)

lemma fmt_02d_small: "n < 10 \<Longrightarrow> fmt_02d n = [CHR ''0'', char_of (48 + n)]"
  by (simp add: fmt_02d_def str_nat.simps[of n] numeral_2_eq_2)

lemma isdecimal_char_of: "(n::nat) < 10 \<Longrightarrow> isdecimal (char_of (48 + n))"
  by (simp add: isdecimal_def)

lemma isdecimal_zero: "isdecimal CHR ''0''"
  by (simp add: isdecimal_def)

lemma int_of_two_digits: "n < 10 \<Longrightarrow> int_of_digits [CHR ''0'', char_of (48 + n)] = n"
  by (simp add: int_of_digits_def)

lemma int_of_digits_snoc: "int_of_digits (d @ [c]) = 10 * int_of_digits d + (of_char c - 48)"
  by (simp add: int_of_digits_def)

lemma char_of_digit: "isdecimal c \<Longrightarrow> char_of (48 + ((of_char c :: nat) - 48)) = c"
  by (simp add: isdecimal_def Let_def)

lemma small_ordinal_last:
  assumes "d \<noteq> []" and "list_all isdecimal d" and "int_of_digits d < 10"
  shows "char_of (48 + int_of_digits d) = last d"
proof -
  from assms(1) obtain d' c where d: "d = d' @ [c]" by (metis rev_exhaust)
  with assms(2) have c: "isdecimal c" by simp
  from assms(3) have "int_of_digits d = of_char c - 48"
    by (simp add: d int_of_digits_snoc)
  with c show ?thesis by (simp add: d char_of_digit)
qed

section \<open>Reference normalization\<close>

text \<open>The three outcomes of \<open>normalize_ref\<close>, on the letters and the digits of the input.\<close>

lemma normalize_ref_padded_case:
  assumes "filter isalpha (strip (upper x)) \<noteq> []" and "filter isdigit (strip (upper x)) \<noteq> []"
    and "list_all isdecimal (filter isdigit (strip (upper x)))"
    and "int_of_digits (filter isdigit (strip (upper x))) < 10"
  shows "normalize_ref x =
           Inr (filter isalpha (strip (upper x)) @
                [CHR ''0'', char_of (48 + int_of_digits (filter isdigit (strip (upper x))))])"
  using assms by (simp add: normalize_ref_def int_of_str_def and_then_Inr fmt_02d_small Let_def)

lemma normalize_ref_unchanged_case:
  assumes "filter isalpha (strip (upper x)) = [] \<or> filter isdigit (strip (upper x)) = [] \<or>
           (list_all isdecimal (filter isdigit (strip (upper x))) \<and>
            10 \<le> int_of_digits (filter isdigit (strip (upper x))))"
  shows "normalize_ref x = Inr (strip (upper x))"
  using assms by (auto simp: normalize_ref_def int_of_str_def and_then_Inr Let_def)

lemma normalize_ref_raises_case:
  assumes "filter isalpha (strip (upper x)) \<noteq> []" and "filter isdigit (strip (upper x)) \<noteq> []"
    and "\<not> list_all isdecimal (filter isdigit (strip (upper x)))"
  shows "normalize_ref x = Inl ValueError"
  using assms by (simp add: normalize_ref_def int_of_str_def and_then_Inl Let_def)

lemma normalize_ref_padded:
  assumes p: "p \<noteq> []" "\<forall>c\<in>set p. isalpha c \<and> upper_char c = [c]" and n: "(n::nat) < 10"
  shows "normalize_ref (p @ [CHR ''0'', char_of (48 + n)]) = Inr (p @ [CHR ''0'', char_of (48 + n)])"
proof -
  define y where "y = p @ [CHR ''0'', char_of (48 + n)]"
  have dn: "isdecimal (char_of (48 + n))" using n by (rule isdecimal_char_of)
  have dg: "isdigit (char_of (48 + n))" "isdigit CHR ''0''"
    using dn isdecimal_zero by (simp_all add: decimal_digit)
  have "\<forall>c\<in>set y. upper_char c = [c]"
    using p(2) dg by (auto simp: y_def isdigit_upper_char_id)
  then have up: "upper y = y" by (rule upper_of_fixed)
  have "hd y = hd p" using p(1) by (simp add: y_def)
  moreover have "isalpha (hd p)" using p by simp
  ultimately have "\<not> isspace (hd y)" by (simp add: alpha_not_space)
  moreover have "\<not> isspace (last y)" using dg by (simp add: y_def digit_not_space)
  ultimately have st: "strip y = y" by (intro strip_fixed) blast
  have fa: "filter isalpha y = p"
    using p(2) dg by (auto simp: y_def alpha_not_digit filter_id_conv)
  have "filter isdigit p = []" using p(2) by (auto simp: filter_empty_conv alpha_not_digit)
  then have fd: "filter isdigit y = [CHR ''0'', char_of (48 + n)]"
    using dg by (simp add: y_def)
  have sy: "strip (upper y) = y" by (simp add: up st)
  have "normalize_ref y = Inr (filter isalpha (strip (upper y)) @
                [CHR ''0'', char_of (48 + int_of_digits (filter isdigit (strip (upper y))))])"
  proof (rule normalize_ref_padded_case)
    show "filter isalpha (strip (upper y)) \<noteq> []" using p(1) by (simp add: sy fa)
    show "filter isdigit (strip (upper y)) \<noteq> []" by (simp add: sy fd)
    show "list_all isdecimal (filter isdigit (strip (upper y)))"
      using dn isdecimal_zero by (simp add: sy fd)
    show "int_of_digits (filter isdigit (strip (upper y))) < 10"
      using n by (simp only: sy fd int_of_two_digits)
  qed
  also have "\<dots> = Inr (p @ [CHR ''0'', char_of (48 + int_of_digits [CHR ''0'', char_of (48 + n)])])"
    by (simp only: sy fa fd)
  also have "\<dots> = Inr y"
    unfolding y_def int_of_two_digits[OF n] ..
  finally have "normalize_ref y = Inr y" .
  then show ?thesis by (simp add: y_def)
qed

lemma filter_runs:
  assumes "r = leading_alpha_run r @ trailing_digit_run r"
  shows "filter isalpha r = leading_alpha_run r \<and> filter isdigit r = trailing_digit_run r"
proof -
  have a: "\<forall>c\<in>set (leading_alpha_run r). isalpha c"
    by (auto simp: leading_alpha_run_def dest: set_takeWhileD)
  have d: "\<forall>c\<in>set (trailing_digit_run r). isdigit c"
    by (auto simp: trailing_digit_run_def dest: set_takeWhileD)
  have "filter isalpha (leading_alpha_run r @ trailing_digit_run r) = leading_alpha_run r"
    using a d by (auto simp: filter_id_conv filter_empty_conv alpha_not_digit)
  moreover have "filter isdigit (leading_alpha_run r @ trailing_digit_run r) = trailing_digit_run r"
    using a d by (auto simp: filter_id_conv filter_empty_conv alpha_not_digit)
  ultimately show ?thesis using assms by simp
qed

text \<open>
  Where \<open>normalize_ref\<close> returns, it is idempotent: a reference it returns is returned
  unchanged.
\<close>

lemma normalize_ref_idempotent_result:
  assumes "normalize_ref x = Inr y"
  shows "normalize_ref y = Inr y"
proof -
  define r where "r = strip (upper x)"
  define p where "p = filter isalpha r"
  define d where "d = filter isdigit r"
  have fx: "strip (upper r) = r" unfolding r_def by (rule strip_upper_fixed)
  have fixed: "\<forall>c\<in>set r. upper_char c = [c]"
    unfolding r_def using set_strip upper_chars_fixed by blast
  consider (pad) "p \<noteq> []" "d \<noteq> []" "list_all isdecimal d" "int_of_digits d < 10"
    | (same) "p = [] \<or> d = [] \<or> (list_all isdecimal d \<and> 10 \<le> int_of_digits d)"
    | (raise) "p \<noteq> []" "d \<noteq> []" "\<not> list_all isdecimal d"
    by (cases "int_of_digits d < 10") auto
  then show ?thesis
  proof cases
    case pad
    then have "normalize_ref x = Inr (p @ [CHR ''0'', char_of (48 + int_of_digits d)])"
      unfolding p_def d_def r_def by (rule normalize_ref_padded_case)
    with assms have y: "y = p @ [CHR ''0'', char_of (48 + int_of_digits d)]" by simp
    have "\<forall>c\<in>set p. isalpha c \<and> upper_char c = [c]"
      using fixed by (auto simp: p_def)
    with pad show ?thesis unfolding y by (intro normalize_ref_padded) auto
  next
    case same
    then have "normalize_ref x = Inr r"
      unfolding p_def d_def r_def by (rule normalize_ref_unchanged_case)
    with assms have y: "y = r" by simp
    from same have "normalize_ref r = Inr (strip (upper r))"
      unfolding p_def d_def by (intro normalize_ref_unchanged_case) (simp add: fx)
    then show ?thesis by (simp add: y fx)
  next
    case raise
    then have "normalize_ref x = Inl ValueError"
      unfolding p_def d_def r_def by (rule normalize_ref_raises_case)
    with assms show ?thesis by simp
  qed
qed

text \<open>
  C8: the equation \<open>normalize_ref (normalize_ref x) = normalize_ref x\<close> needs
  \<open>normalize_ref x\<close> to return, and on the reference made of \<open>A\<close> and the superscript two it does not:
  the superscript two (code point 178) is a digit for \<open>str.isdigit\<close>, so it is gathered
  into the ordinal, and \<open>int\<close> rejects it with \<open>ValueError\<close>.
\<close>

theorem normalize_ref_value_error:
  "filter isalpha (strip (upper [CHR ''A'', CHR 0xB2])) = ''A'' \<and>
   filter isdigit (strip (upper [CHR ''A'', CHR 0xB2])) = [CHR 0xB2] \<and>
   int_of_str [CHR 0xB2] = Inl ValueError \<and>
   normalize_ref [CHR ''A'', CHR 0xB2] = Inl ValueError"
  by code_simp

text \<open>
  C6, as the specification words it, fails: the reference \<open>R1A\<close> (a resistor of an array)
  has no trailing numeric run, so it should come back unchanged, but \<open>normalize_ref\<close>
  gathers the letters and the digits wherever they stand and returns \<open>RA01\<close>.
\<close>

theorem normalize_ref_run_counterexample:
  "trailing_digit_run (strip (upper ''R1A'')) = [] \<and> strip (upper ''R1A'') = ''R1A'' \<and>
   normalize_ref ''R1A'' = Inr ''RA01''"
  by code_simp

text \<open>
  C6, amended: for every input of the model (characters below code point 256 other than
  the micro sign and the y with diaeresis), \<open>normalize_ref\<close> strips and uppercases its
  input; its prefix is the letters of that string and its ordinal the digits of that
  string, in their order. When both are present, the digits are all decimal and the
  ordinal is below 10, the result is the prefix followed by the ordinal padded to two
  digits; when the prefix or the ordinal is absent, or the digits are all decimal and the
  ordinal is 10 or more, the result is the stripped, uppercased input. For a string made
  of its leading alphabetic run followed by its trailing numeric run, prefix and ordinal
  are these two runs.
\<close>

theorem normalize_ref_letters_digits:
  assumes "in_model x"
  shows
  "(filter isalpha (strip (upper x)) \<noteq> [] \<and> filter isdigit (strip (upper x)) \<noteq> [] \<and>
    list_all isdecimal (filter isdigit (strip (upper x))) \<and>
    int_of_digits (filter isdigit (strip (upper x))) < 10 \<longrightarrow>
      normalize_ref x =
        Inr (filter isalpha (strip (upper x)) @
             [CHR ''0'', last (filter isdigit (strip (upper x)))])) \<and>
   (filter isalpha (strip (upper x)) = [] \<or> filter isdigit (strip (upper x)) = [] \<or>
    (list_all isdecimal (filter isdigit (strip (upper x))) \<and>
     10 \<le> int_of_digits (filter isdigit (strip (upper x)))) \<longrightarrow>
      normalize_ref x = Inr (strip (upper x))) \<and>
   (strip (upper x) = leading_alpha_run (strip (upper x)) @ trailing_digit_run (strip (upper x)) \<longrightarrow>
      filter isalpha (strip (upper x)) = leading_alpha_run (strip (upper x)) \<and>
      filter isdigit (strip (upper x)) = trailing_digit_run (strip (upper x)))"
proof -
  define r where "r = strip (upper x)"
  define p where "p = filter isalpha r"
  define d where "d = filter isdigit r"
  have 1: "normalize_ref x = Inr (p @ [CHR ''0'', last d])"
    if "p \<noteq> []" "d \<noteq> []" "list_all isdecimal d" "int_of_digits d < 10"
  proof -
    from that have "normalize_ref x = Inr (p @ [CHR ''0'', char_of (48 + int_of_digits d)])"
      unfolding p_def d_def r_def by (rule normalize_ref_padded_case)
    with small_ordinal_last[OF that(2) that(3) that(4)] show ?thesis by simp
  qed
  have 2: "normalize_ref x = Inr r"
    if "p = [] \<or> d = [] \<or> (list_all isdecimal d \<and> 10 \<le> int_of_digits d)"
    using that unfolding p_def d_def r_def by (rule normalize_ref_unchanged_case)
  have 3: "filter isalpha r = leading_alpha_run r \<and> filter isdigit r = trailing_digit_run r"
    if "r = leading_alpha_run r @ trailing_digit_run r"
    using that by (rule filter_runs)
  from 1 2 3 show ?thesis
    unfolding r_def p_def d_def by blast
qed

theorem normalize_ref_letters_digits_witness:
  "in_model '' d4 '' \<and> in_model ''q12'' \<and> in_model ''gnd'' \<and>
   normalize_ref '' d4 '' = Inr ''D04'' \<and> normalize_ref ''q12'' = Inr ''Q12'' \<and>
   normalize_ref ''gnd'' = Inr ''GND'' \<and>
   leading_alpha_run (strip (upper '' d4 '')) = ''D'' \<and>
   trailing_digit_run (strip (upper '' d4 '')) = ''4'' \<and>
   filter isalpha (strip (upper '' d4 '')) = ''D'' \<and>
   filter isdigit (strip (upper '' d4 '')) = ''4''"
proof -
  have m: "in_model '' d4 ''" "in_model ''q12''" "in_model ''gnd''" by code_simp+
  have r: "strip (upper '' d4 '') = ''D4''" by code_simp
  have a: "leading_alpha_run ''D4'' = ''D''" by code_simp
  have t: "trailing_digit_run ''D4'' = ''4''" by code_simp
  have fa: "filter isalpha ''D4'' = ''D''" by code_simp
  have fd: "filter isdigit ''D4'' = ''4''" by code_simp
  have v: "list_all isdecimal ''4''" "int_of_digits ''4'' < 10" by code_simp+
  have r2: "strip (upper ''q12'') = ''Q12''" by code_simp
  have v2: "list_all isdecimal (filter isdigit ''Q12'')"
    "10 \<le> int_of_digits (filter isdigit ''Q12'')" by code_simp+
  have r3: "strip (upper ''gnd'') = ''GND''" by code_simp
  have v3: "filter isdigit ''GND'' = []" by code_simp
  from normalize_ref_letters_digits[OF m(1)] have "normalize_ref '' d4 '' = Inr ''D04''"
    unfolding r fa fd using v by simp
  moreover from normalize_ref_letters_digits[OF m(2)] have "normalize_ref ''q12'' = Inr ''Q12''"
    unfolding r2 using v2 by blast
  moreover from normalize_ref_letters_digits[OF m(3)] have "normalize_ref ''gnd'' = Inr ''GND''"
    unfolding r3 using v3 by blast
  moreover from normalize_ref_letters_digits[OF m(1)]
  have "filter isalpha ''D4'' = ''D'' \<and> filter isdigit ''D4'' = ''4''"
    unfolding r a t by simp
  ultimately show ?thesis using m by (simp add: r a t)
qed

section \<open>Connection store\<close>

lemma not_startswith_self: "\<not> startswith r (r @ ''-'')"
  by (simp add: startswith_def)

lemma add_component_connections: "add_component st ref pins = Inr st' \<Longrightarrow> connections st' = connections st"
  by (auto simp: add_component_def and_then_eq_Inr Let_def)

lemma connections_auto_add: "auto_add st ref = Inr st' \<Longrightarrow> connections st' = connections st"
  by (auto simp: auto_add_def add_component_connections split: if_splits)

lemma sorted_pair_le: "fst (sorted_pair a b) \<le> snd (sorted_pair a b)"
  unfolding sorted_pair_def by (cases "b < a") (simp_all add: less_imp_le not_less)

lemma canonical_no_permutation:
  assumes "canonical cs" and "(a, b) \<in> cs" and "(b, a) \<in> cs"
  shows "a = b"
proof -
  from assms have "a \<le> b" "b \<le> a" by (auto simp: canonical_def)
  then show ?thesis by simp
qed

lemma canonical_subset: "canonical cs \<Longrightarrow> ds \<subseteq> cs \<Longrightarrow> canonical ds"
  by (auto simp: canonical_def)

lemma no_self_loop_subset: "no_self_loop cs \<Longrightarrow> ds \<subseteq> cs \<Longrightarrow> no_self_loop ds"
  by (auto simp: no_self_loop_def)

lemma canonical_insert: "canonical cs \<Longrightarrow> canonical (insert (sorted_pair a b) cs)"
  by (simp add: canonical_def sorted_pair_le)

text \<open>The paths of \<open>add_connection\<close>.\<close>

lemma add_connection_unparsed:
  assumes "parse_pin (components st) pin1 = Inr q1" and "parse_pin (components st) pin2 = Inr q2"
    and "q1 = None \<or> q2 = None"
  shows "add_connection st pin1 pin2 = Inr (False, st)"
  using assms by (auto simp: add_connection_def and_then_Inr split: option.splits)

lemma add_connection_parsed:
  assumes "parse_pin (components st) pin1 = Inr (Some p1)"
    and "parse_pin (components st) pin2 = Inr (Some p2)"
    and "auto_add st (fst p1) = Inr st0" and "auto_add st0 (fst p2) = Inr st1"
  shows "add_connection st pin1 pin2 =
           (if sorted_pair (format_pin p1) (format_pin p2) \<in> connections st1 then Inr (False, st1)
            else Inr (True, st1\<lparr>connections :=
                        insert (sorted_pair (format_pin p1) (format_pin p2)) (connections st1)\<rparr>))"
  using assms by (simp add: add_connection_def and_then_Inr Let_def)

lemma add_connection_result:
  assumes "add_connection st pin1 pin2 = Inr (ok, st')"
  shows "st' = st \<or>
         (\<exists>p1 p2 st0 st1.
            parse_pin (components st) pin1 = Inr (Some p1) \<and>
            parse_pin (components st) pin2 = Inr (Some p2) \<and>
            auto_add st (fst p1) = Inr st0 \<and> auto_add st0 (fst p2) = Inr st1 \<and>
            (st' = st1 \<or>
             st' = st1\<lparr>connections :=
                      insert (sorted_pair (format_pin p1) (format_pin p2)) (connections st1)\<rparr>))"
proof (cases "parse_pin (components st) pin1")
  case (Inl e)
  with assms show ?thesis by (simp add: add_connection_def and_then_Inl)
next
  case q1: (Inr q1)
  show ?thesis
  proof (cases "parse_pin (components st) pin2")
    case (Inl e)
    with assms q1 show ?thesis by (simp add: add_connection_def and_then_Inl and_then_Inr)
  next
    case q2: (Inr q2)
    show ?thesis
    proof (cases "q1 = None \<or> q2 = None")
      case True
      from add_connection_unparsed[OF q1 q2 True] assms show ?thesis by simp
    next
      case False
      then obtain p1 p2 where p: "q1 = Some p1" "q2 = Some p2" by auto
      show ?thesis
      proof (cases "auto_add st (fst p1)")
        case (Inl e)
        with assms q1 q2 p show ?thesis by (simp add: add_connection_def and_then_Inl and_then_Inr)
      next
        case a0: (Inr st0)
        show ?thesis
        proof (cases "auto_add st0 (fst p2)")
          case (Inl e)
          with assms q1 q2 p a0 show ?thesis
            by (simp add: add_connection_def and_then_Inl and_then_Inr)
        next
          case a1: (Inr st1)
          from q1 q2 p have pp: "parse_pin (components st) pin1 = Inr (Some p1)"
            "parse_pin (components st) pin2 = Inr (Some p2)" by simp_all
          from add_connection_parsed[OF pp a0 a1] assms
          have "st' = st1 \<or>
             st' = st1\<lparr>connections :=
                      insert (sorted_pair (format_pin p1) (format_pin p2)) (connections st1)\<rparr>"
            by (auto split: if_splits)
          with pp a0 a1 show ?thesis by blast
        qed
      qed
    qed
  qed
qed

lemma add_connection_canonical:
  assumes "canonical (connections st)" and "add_connection st pin1 pin2 = Inr (ok, st')"
  shows "canonical (connections st')"
proof -
  from add_connection_result[OF assms(2)] show ?thesis
  proof
    assume "st' = st"
    with assms(1) show ?thesis by simp
  next
    assume "\<exists>p1 p2 st0 st1.
            parse_pin (components st) pin1 = Inr (Some p1) \<and>
            parse_pin (components st) pin2 = Inr (Some p2) \<and>
            auto_add st (fst p1) = Inr st0 \<and> auto_add st0 (fst p2) = Inr st1 \<and>
            (st' = st1 \<or>
             st' = st1\<lparr>connections :=
                      insert (sorted_pair (format_pin p1) (format_pin p2)) (connections st1)\<rparr>)"
    then obtain p1 p2 st0 st1 where a: "auto_add st (fst p1) = Inr st0" "auto_add st0 (fst p2) = Inr st1"
      and s: "st' = st1 \<or>
             st' = st1\<lparr>connections :=
                      insert (sorted_pair (format_pin p1) (format_pin p2)) (connections st1)\<rparr>"
      by blast
    from a have c: "connections st1 = connections st" by (simp add: connections_auto_add)
    from s show ?thesis
    proof
      assume "st' = st1"
      with c assms(1) show ?thesis by simp
    next
      assume "st' = st1\<lparr>connections :=
                      insert (sorted_pair (format_pin p1) (format_pin p2)) (connections st1)\<rparr>"
      with c assms(1) show ?thesis by (simp add: canonical_insert)
    qed
  qed
qed

lemma delete_connection_subset:
  assumes "delete_connection st pin1 pin2 = Inr (ok, st')"
  shows "connections st' \<subseteq> connections st"
proof -
  from assms obtain q1 q2 where q: "parse_pin (components st) pin1 = Inr q1"
    "parse_pin (components st) pin2 = Inr q2"
    by (auto simp: delete_connection_def and_then_eq_Inr)
  from assms show ?thesis
    unfolding delete_connection_def q and_then_Inr
    by (auto simp: Let_def split: option.splits if_splits)
qed

lemma delete_pin_connections_subset:
  assumes "delete_pin_connections st pin0 = Inr (ok, st')"
  shows "connections st' \<subseteq> connections st"
proof -
  from assms obtain q where q: "parse_pin (components st) pin0 = Inr q"
    by (auto simp: delete_pin_connections_def and_then_eq_Inr)
  from assms show ?thesis
    unfolding delete_pin_connections_def q and_then_Inr
    by (auto simp: Let_def split: option.splits if_splits)
qed

lemma merge_step_fst:
  "fst (merge_step from_str from_ref to_str c acc) =
     (let new_conn = sorted_pair (replace_pin from_str from_ref to_str (fst c))
                                 (replace_pin from_str from_ref to_str (snd c))
      in if fst new_conn \<noteq> snd new_conn \<and> new_conn \<notin> fst acc - {c}
         then insert new_conn (fst acc - {c}) else fst acc - {c})"
  by (simp add: merge_step_def Let_def)

lemma merge_step_result:
  "fst (merge_step from_str from_ref to_str c acc) = fst acc - {c} \<or>
   (\<exists>a b. fst (sorted_pair a b) \<noteq> snd (sorted_pair a b) \<and>
      fst (merge_step from_str from_ref to_str c acc) = insert (sorted_pair a b) (fst acc - {c}))"
proof -
  define n where "n = sorted_pair (replace_pin from_str from_ref to_str (fst c))
                                  (replace_pin from_str from_ref to_str (snd c))"
  have m: "fst (merge_step from_str from_ref to_str c acc) =
             (if fst n \<noteq> snd n \<and> n \<notin> fst acc - {c} then insert n (fst acc - {c}) else fst acc - {c})"
    by (simp add: merge_step_fst Let_def n_def)
  show ?thesis
  proof (cases "fst n \<noteq> snd n \<and> n \<notin> fst acc - {c}")
    case True
    then have "fst (merge_step from_str from_ref to_str c acc) = insert n (fst acc - {c})"
      by (simp add: m)
    with True show ?thesis unfolding n_def by blast
  next
    case False
    then have "fst (merge_step from_str from_ref to_str c acc) = fst acc - {c}"
      unfolding m by auto
    then show ?thesis by blast
  qed
qed

lemma merge_step_canonical:
  assumes "canonical (fst acc)"
  shows "canonical (fst (merge_step from_str from_ref to_str c acc))"
proof -
  have c: "canonical (fst acc - {c})" using assms by (rule canonical_subset) auto
  from merge_step_result[of from_str from_ref to_str c acc] show ?thesis
  proof
    assume "fst (merge_step from_str from_ref to_str c acc) = fst acc - {c}"
    with c show ?thesis by simp
  next
    assume "\<exists>a b. fst (sorted_pair a b) \<noteq> snd (sorted_pair a b) \<and>
      fst (merge_step from_str from_ref to_str c acc) = insert (sorted_pair a b) (fst acc - {c})"
    then obtain a b where
      eq: "fst (merge_step from_str from_ref to_str c acc) = insert (sorted_pair a b) (fst acc - {c})"
      by blast
    have "canonical (insert (sorted_pair a b) (fst acc - {c}))" using c by (rule canonical_insert)
    then show ?thesis by (simp add: eq)
  qed
qed

lemma merge_step_no_self_loop:
  assumes "no_self_loop (fst acc)"
  shows "no_self_loop (fst (merge_step from_str from_ref to_str c acc))"
proof -
  have n: "no_self_loop (fst acc - {c})" using assms by (rule no_self_loop_subset) auto
  from merge_step_result[of from_str from_ref to_str c acc] show ?thesis
  proof
    assume "fst (merge_step from_str from_ref to_str c acc) = fst acc - {c}"
    with n show ?thesis by simp
  next
    assume "\<exists>a b. fst (sorted_pair a b) \<noteq> snd (sorted_pair a b) \<and>
      fst (merge_step from_str from_ref to_str c acc) = insert (sorted_pair a b) (fst acc - {c})"
    then obtain a b where ne: "fst (sorted_pair a b) \<noteq> snd (sorted_pair a b)"
      and eq: "fst (merge_step from_str from_ref to_str c acc) = insert (sorted_pair a b) (fst acc - {c})"
      by blast
    have "no_self_loop (insert (sorted_pair a b) (fst acc - {c}))"
      using n ne by (simp add: no_self_loop_def)
    then show ?thesis by (simp add: eq)
  qed
qed

lemma merge_fold_canonical:
  "canonical (fst acc) \<Longrightarrow> canonical (fst (fold (merge_step from_str from_ref to_str) cs acc))"
  by (induction cs arbitrary: acc) (simp_all add: merge_step_canonical)

lemma merge_fold_no_self_loop:
  "no_self_loop (fst acc) \<Longrightarrow> no_self_loop (fst (fold (merge_step from_str from_ref to_str) cs acc))"
  by (induction cs arbitrary: acc) (simp_all add: merge_step_no_self_loop)

text \<open>The paths of \<open>merge_pins\<close>.\<close>

lemma merge_pins_unparsed:
  assumes "parse_pin (components st) from_pin = Inr q1" and "parse_pin (components st) to_pin = Inr q2"
    and "q1 = None \<or> q2 = None"
  shows "merge_pins st order from_pin to_pin = Inr (False, None, st)"
  using assms by (auto simp: merge_pins_def and_then_Inr split: option.splits)

lemma merge_pins_parsed:
  assumes "parse_pin (components st) from_pin = Inr (Some p_from)"
    and "parse_pin (components st) to_pin = Inr (Some p_to)"
  shows "merge_pins st order from_pin to_pin =
     (let from_str = format_pin p_from;
          to_str = format_pin p_to;
          to_update = filter (\<lambda>c. in_conn from_str c \<or>
                                    (snd p_from = None \<and> in_conn (fst p_from @ ''-1'') c)) order
      in if to_update = [] then Inr (False, None, st)
         else
           (let r = fold (merge_step from_str (fst p_from) to_str) to_update (connections st, 0)
            in Inr (True, Some (snd r), st\<lparr>connections := fst r\<rparr>)))"
  unfolding merge_pins_def assms and_then_Inr by simp

lemma merge_pins_raises:
  assumes "parse_pin (components st) from_pin = Inl e \<or>
           (\<exists>q. parse_pin (components st) from_pin = Inr q \<and> parse_pin (components st) to_pin = Inl e)"
  shows "merge_pins st order from_pin to_pin = Inl e"
  using assms unfolding merge_pins_def by (auto simp: and_then_Inl and_then_Inr)

lemma merge_pins_connections:
  assumes "merge_pins st order from_pin to_pin = Inr (ok, count, st')"
  shows "connections st' = connections st \<or>
   (\<exists>from_str from_ref to_str cs.
      connections st' = fst (fold (merge_step from_str from_ref to_str) cs (connections st, 0)))"
proof -
  from assms merge_pins_raises[of st from_pin _ to_pin order]
  obtain q1 q2 where q: "parse_pin (components st) from_pin = Inr q1"
    "parse_pin (components st) to_pin = Inr q2"
    by (cases "parse_pin (components st) from_pin"; cases "parse_pin (components st) to_pin") auto
  show ?thesis
  proof (cases "q1 = None \<or> q2 = None")
    case True
    from merge_pins_unparsed[OF q True] assms show ?thesis by simp
  next
    case False
    then obtain p_from p_to where p: "q1 = Some p_from" "q2 = Some p_to" by auto
    define upd where "upd = filter (\<lambda>c. in_conn (format_pin p_from) c \<or>
                                    (snd p_from = None \<and> in_conn (fst p_from @ ''-1'') c)) order"
    define r where "r = fold (merge_step (format_pin p_from) (fst p_from) (format_pin p_to)) upd (connections st, 0)"
    have m: "merge_pins st order from_pin to_pin =
       (if upd = [] then Inr (False, None, st) else Inr (True, Some (snd r), st\<lparr>connections := fst r\<rparr>))"
      unfolding merge_pins_parsed[OF q[unfolded p]] Let_def upd_def r_def ..
    show ?thesis
    proof (cases "upd = []")
      case True
      with m assms have "st' = st" by simp
      then show ?thesis by simp
    next
      case False
      with m assms have "st' = st\<lparr>connections := fst r\<rparr>" by simp
      then have "connections st' = fst r" by simp
      then show ?thesis unfolding r_def by blast
    qed
  qed
qed

lemma merge_pins_canonical:
  assumes "canonical (connections st)" and "merge_pins st order from_pin to_pin = Inr (ok, count, st')"
  shows "canonical (connections st')"
proof -
  from merge_pins_connections[OF assms(2)] show ?thesis
  proof
    assume "connections st' = connections st"
    with assms(1) show ?thesis by simp
  next
    assume "\<exists>from_str from_ref to_str cs.
      connections st' = fst (fold (merge_step from_str from_ref to_str) cs (connections st, 0))"
    then obtain from_str from_ref to_str cs where
      eq: "connections st' = fst (fold (merge_step from_str from_ref to_str) cs (connections st, 0))"
      by blast
    from assms(1) have "canonical (fst (connections st, 0::nat))" by simp
    then have "canonical (fst (fold (merge_step from_str from_ref to_str) cs (connections st, 0)))"
      by (rule merge_fold_canonical)
    then show ?thesis by (simp only: eq)
  qed
qed

lemma merge_pins_no_self_loop:
  assumes "no_self_loop (connections st)" and "merge_pins st order from_pin to_pin = Inr (ok, count, st')"
  shows "no_self_loop (connections st')"
proof -
  from merge_pins_connections[OF assms(2)] show ?thesis
  proof
    assume "connections st' = connections st"
    with assms(1) show ?thesis by simp
  next
    assume "\<exists>from_str from_ref to_str cs.
      connections st' = fst (fold (merge_step from_str from_ref to_str) cs (connections st, 0))"
    then obtain from_str from_ref to_str cs where
      eq: "connections st' = fst (fold (merge_step from_str from_ref to_str) cs (connections st, 0))"
      by blast
    from assms(1) have "no_self_loop (fst (connections st, 0::nat))" by simp
    then have "no_self_loop (fst (fold (merge_step from_str from_ref to_str) cs (connections st, 0)))"
      by (rule merge_fold_no_self_loop)
    then show ?thesis by (simp only: eq)
  qed
qed

lemma reachable_canonical: "reachable st \<Longrightarrow> canonical (connections st)"
proof (induction rule: reachable.induct)
  case init
  show ?case by (simp add: empty_project_def canonical_def)
next
  case (add st a b ok st')
  from add.IH add.hyps(2) show ?case by (rule add_connection_canonical)
next
  case (delete st a b ok st')
  from delete.IH delete_connection_subset[OF delete.hyps(2)] show ?case by (rule canonical_subset)
next
  case (merge st order a b ok count st')
  from merge.IH merge.hyps(3) show ?case by (rule merge_pins_canonical)
next
  case (delete_pin st a ok st')
  from delete_pin.IH delete_pin_connections_subset[OF delete_pin.hyps(2)] show ?case
    by (rule canonical_subset)
qed

lemma reachable_no_permutation:
  assumes "reachable st" and "(a, b) \<in> connections st" and "(b, a) \<in> connections st"
  shows "a = b"
  using reachable_canonical[OF assms(1)] assms(2,3) by (rule canonical_no_permutation)

lemma other_mutators_add_no_self_loop:
  assumes "no_self_loop (connections st)"
  shows "delete_connection st a b = Inr (ok, st') \<Longrightarrow> no_self_loop (connections st')"
    and "merge_pins st order a b = Inr (ok, count, st') \<Longrightarrow> no_self_loop (connections st')"
    and "delete_pin_connections st a = Inr (ok, st') \<Longrightarrow> no_self_loop (connections st')"
proof -
  show "no_self_loop (connections st')" if "delete_connection st a b = Inr (ok, st')"
    using assms delete_connection_subset[OF that] by (rule no_self_loop_subset)
  show "no_self_loop (connections st')" if "merge_pins st order a b = Inr (ok, count, st')"
    using assms that by (rule merge_pins_no_self_loop)
  show "no_self_loop (connections st')" if "delete_pin_connections st a = Inr (ok, st')"
    using assms delete_pin_connections_subset[OF that] by (rule no_self_loop_subset)
qed

lemma in_conn_sorted_pair: "in_conn x (sorted_pair a b) \<longleftrightarrow> x = a \<or> x = b"
  unfolding in_conn_def sorted_pair_def by (cases "b < a") auto

lemma merge_step_from_gone:
  assumes ne: "to_str \<noteq> from_str"
    and inv: "\<forall>d \<in> fst acc. in_conn from_str d \<longrightarrow> d \<in> set (c # cs)"
  shows "\<forall>d \<in> fst (merge_step from_str from_ref to_str c acc). in_conn from_str d \<longrightarrow> d \<in> set cs"
proof -
  define a where "a = replace_pin from_str from_ref to_str (fst c)"
  define b where "b = replace_pin from_str from_ref to_str (snd c)"
  have "a \<noteq> from_str" "b \<noteq> from_str"
    using ne by (simp_all add: a_def b_def replace_pin_def)
  then have new: "\<not> in_conn from_str (sorted_pair a b)"
    by (simp add: in_conn_sorted_pair)
  have m: "fst (merge_step from_str from_ref to_str c acc) =
             (if fst (sorted_pair a b) \<noteq> snd (sorted_pair a b) \<and> sorted_pair a b \<notin> fst acc - {c}
              then insert (sorted_pair a b) (fst acc - {c}) else fst acc - {c})"
    by (simp add: merge_step_fst Let_def a_def b_def)
  have sub: "fst (merge_step from_str from_ref to_str c acc) \<subseteq> insert (sorted_pair a b) (fst acc - {c})"
  proof (cases "fst (sorted_pair a b) \<noteq> snd (sorted_pair a b) \<and> sorted_pair a b \<notin> fst acc - {c}")
    case True
    then have "fst (merge_step from_str from_ref to_str c acc) = insert (sorted_pair a b) (fst acc - {c})"
      by (simp add: m)
    then show ?thesis by simp
  next
    case False
    then have "fst (merge_step from_str from_ref to_str c acc) = fst acc - {c}"
      unfolding m by auto
    then show ?thesis by blast
  qed
  show ?thesis
  proof (intro ballI impI)
    fix d
    assume d: "d \<in> fst (merge_step from_str from_ref to_str c acc)" and f: "in_conn from_str d"
    from d sub have "d = sorted_pair a b \<or> d \<in> fst acc - {c}" by blast
    with new f have "d \<in> fst acc" "d \<noteq> c" by blast+
    with inv f show "d \<in> set cs" by (metis set_ConsD)
  qed
qed

lemma merge_fold_from_gone:
  assumes "to_str \<noteq> from_str"
  shows "\<forall>d \<in> fst acc. in_conn from_str d \<longrightarrow> d \<in> set cs \<Longrightarrow>
         \<forall>d \<in> fst (fold (merge_step from_str from_ref to_str) cs acc). \<not> in_conn from_str d"
proof (induction cs arbitrary: acc)
  case Nil
  then show ?case by simp
next
  case (Cons c cs)
  from merge_step_from_gone[OF assms Cons.prems]
  have "\<forall>d \<in> fst (merge_step from_str from_ref to_str c acc). in_conn from_str d \<longrightarrow> d \<in> set cs" .
  from Cons.IH[OF this] show ?case by simp
qed

lemma merge_pins_from_gone:
  assumes it: "iteration_of order (connections st)"
    and pf: "parse_pin (components st) from_pin = Inr (Some p_from)"
    and pt: "parse_pin (components st) to_pin = Inr (Some p_to)"
    and ne: "format_pin p_to \<noteq> format_pin p_from"
  shows "\<exists>ok count st'. merge_pins st order from_pin to_pin = Inr (ok, count, st') \<and>
           (\<forall>d \<in> connections st'. \<not> in_conn (format_pin p_from) d)"
proof -
  define from_str where "from_str = format_pin p_from"
  define to_str where "to_str = format_pin p_to"
  define upd where "upd = filter (\<lambda>c. in_conn from_str c \<or>
                                    (snd p_from = None \<and> in_conn (fst p_from @ ''-1'') c)) order"
  define r where "r = fold (merge_step from_str (fst p_from) to_str) upd (connections st, 0)"
  from it have s: "set order = connections st" by (simp add: iteration_of_def)
  have init: "\<forall>d \<in> fst (connections st, 0::nat). in_conn from_str d \<longrightarrow> d \<in> set upd"
  proof (intro ballI impI)
    fix d
    assume "d \<in> fst (connections st, 0::nat)" and f: "in_conn from_str d"
    then have "d \<in> set order" using s by simp
    with f show "d \<in> set upd" by (simp add: upd_def)
  qed
  have m: "merge_pins st order from_pin to_pin =
     (if upd = [] then Inr (False, None, st)
      else Inr (True, Some (snd r), st\<lparr>connections := fst r\<rparr>))"
    unfolding merge_pins_parsed[OF pf pt] Let_def from_str_def to_str_def upd_def r_def ..
  from ne have ne': "to_str \<noteq> from_str" by (simp add: from_str_def to_str_def)
  show ?thesis
  proof (cases "upd = []")
    case True
    with init have g: "\<forall>d \<in> connections st. \<not> in_conn from_str d" by simp
    from True have "merge_pins st order from_pin to_pin = Inr (False, None, st)" by (simp add: m)
    with g show ?thesis unfolding from_str_def by blast
  next
    case False
    then have e: "merge_pins st order from_pin to_pin =
        Inr (True, Some (snd r), st\<lparr>connections := fst r\<rparr>)"
      by (simp add: m)
    from merge_fold_from_gone[OF ne' init, of "fst p_from"]
    have "\<forall>d \<in> connections (st\<lparr>connections := fst r\<rparr>). \<not> in_conn from_str d"
      by (simp add: r_def)
    with e show ?thesis unfolding from_str_def by blast
  qed
qed

text \<open>
  C1: in every reachable store no two entries are permutations of one pair and no entry is
  a self-loop. The first half holds (\<open>reachable_no_permutation\<close>), and the three other
  mutators add no pair of two equal pin strings (\<open>other_mutators_add_no_self_loop\<close>).
  \<open>add_connection\<close> breaks the second half: unlike \<open>merge_pins\<close>, it does not compare the
  two endpoints, and connecting a pin to itself stores the pair \<open>(R01-1, R01-1)\<close>.
\<close>

theorem add_connection_self_loop:
  "add_connection empty_project ''R1-1'' ''R1-1'' =
     Inr (True,
      \<lparr>components = [(''R01'', \<lparr>c_pins = 2, c_value = ''?'', c_package = ''?'',
                                c_description = [], c_type = ''resistor''\<rparr>)],
       connections = {(''R01-1'', ''R01-1'')}, net_names = []\<rparr>) \<and>
   reachable
     \<lparr>components = [(''R01'', \<lparr>c_pins = 2, c_value = ''?'', c_package = ''?'',
                               c_description = [], c_type = ''resistor''\<rparr>)],
      connections = {(''R01-1'', ''R01-1'')}, net_names = []\<rparr>"
proof -
  have e: "add_connection empty_project ''R1-1'' ''R1-1'' =
     Inr (True,
      \<lparr>components = [(''R01'', \<lparr>c_pins = 2, c_value = ''?'', c_package = ''?'',
                                c_description = [], c_type = ''resistor''\<rparr>)],
       connections = {(''R01-1'', ''R01-1'')}, net_names = []\<rparr>)"
    by code_simp
  from reachable.init e have "reachable
     \<lparr>components = [(''R01'', \<lparr>c_pins = 2, c_value = ''?'', c_package = ''?'',
                               c_description = [], c_type = ''resistor''\<rparr>)],
      connections = {(''R01-1'', ''R01-1'')}, net_names = []\<rparr>"
    by (rule reachable.add)
  with e show ?thesis by (rule conjI)
qed

text \<open>
  C5: \<open>merge_pins\<close> moves every pair of the source pin to the target pin, and the source
  pin is gone from the store afterwards when the target is another pin
  (\<open>merge_pins_from_gone\<close>). On the pair
  \<open>Q14-1~Q14-TAB\<close>, merging \<open>Q14-TAB\<close> into \<open>Q14-4\<close> should leave \<open>Q14-1~Q14-4\<close> and
  count one pair; the replacement also rewrites the endpoint \<open>Q14-1\<close>, the pair becomes a
  self-loop and is dropped, and the count is 0.
\<close>

theorem merge_pins_drops_pair:
  "add_connection empty_project ''Q14-1'' ''Q14-TAB'' = Inr (True, tab_project) \<and>
   connections tab_project = {(''Q14-1'', ''Q14-TAB'')} \<and>
   iteration_of [(''Q14-1'', ''Q14-TAB'')] (connections tab_project) \<and>
   merge_pins tab_project [(''Q14-1'', ''Q14-TAB'')] ''Q14-TAB'' ''Q14-4'' =
     Inr (True, Some 0, tab_project\<lparr>connections := {}\<rparr>)"
  by code_simp

text \<open>
  C9, as it is worded, fails: the pair \<open>GND~GND-1\<close> has the bare reference as an endpoint,
  yet \<open>delete_component\<close> removes it, because its other endpoint starts with \<open>GND-\<close>.
  The project arises by adding \<open>GND\<close>, connecting \<open>GND-1\<close> to \<open>X-1\<close>, declaring \<open>GND\<close>
  a single-pin component and merging \<open>X-1\<close> into \<open>GND\<close>.
\<close>

theorem delete_component_bare_counterexample:
  "add_component empty_project ''GND'' None = Inr bare_added \<and>
   add_connection bare_added ''GND-1'' ''X-1'' = Inr (True, bare_connected) \<and>
   edit_component_pins bare_connected ''GND'' 1 = Inr (True, bare_edited) \<and>
   merge_pins bare_edited [(''GND-1'', ''X-1'')] ''X-1'' ''GND'' = Inr (True, Some 1, bare_project) \<and>
   connections bare_project = {(''GND'', ''GND-1'')} \<and> normalize_ref ''GND'' = Inr ''GND'' \<and>
   delete_component bare_project ''GND'' =
     Inr (True, bare_project\<lparr>connections := {},
                              components := AList.delete ''GND'' (components bare_project)\<rparr>)"
  by code_simp

text \<open>
  C9, amended: \<open>delete_component\<close> of a registered component removes from the store
  exactly the pairs with an endpoint that starts with the normalized reference followed by
  \<open>-\<close>; a pair with the bare reference as one endpoint stays in the store unless its other
  endpoint starts with the reference followed by \<open>-\<close>.
\<close>

theorem delete_component_frame:
  assumes "normalize_ref ref0 = Inr ref" and "map_of (components st) ref \<noteq> None"
  shows "\<exists>st'. delete_component st ref0 = Inr (True, st') \<and>
           connections st' =
             {c \<in> connections st. \<not> startswith (fst c) (ref @ ''-'') \<and>
                                   \<not> startswith (snd c) (ref @ ''-'')} \<and>
           (\<forall>c \<in> connections st.
              (fst c = ref \<and> \<not> startswith (snd c) (ref @ ''-'')) \<or>
              (snd c = ref \<and> \<not> startswith (fst c) (ref @ ''-''))
              \<longrightarrow> c \<in> connections st')"
  using assms by (auto simp: delete_component_def and_then_Inr not_startswith_self)

theorem delete_component_frame_witness:
  "normalize_ref ''gnd'' = Inr ''GND'' \<and> map_of (components gnd_project) ''GND'' \<noteq> None \<and>
   (\<exists>st'. delete_component gnd_project ''gnd'' = Inr (True, st') \<and>
          connections st' = {(''GND'', ''R01-1'')})"
proof -
  have n: "normalize_ref ''gnd'' = Inr ''GND''" by code_simp
  have h: "map_of (components gnd_project) ''GND'' \<noteq> None" by code_simp
  have c: "connections gnd_project = {(''GND'', ''R01-1'')}" by code_simp
  have s: "\<not> startswith ''R01-1'' ''GND-''" "\<not> startswith ''GND'' ''GND-''" by code_simp+
  from delete_component_frame[OF n h]
  have "\<exists>st'. delete_component gnd_project ''gnd'' = Inr (True, st') \<and>
          connections st' = {(''GND'', ''R01-1'')}"
    unfolding c using s by auto
  with n h show ?thesis by blast
qed

section \<open>Parsing pins\<close>

lemma mem_dropWhile: "c \<in> set s \<Longrightarrow> \<not> P c \<Longrightarrow> c \<in> set (dropWhile P s)"
  by (induction s) auto

lemma mem_strip: "c \<in> set s \<Longrightarrow> \<not> isspace c \<Longrightarrow> c \<in> set (strip s)"
  by (simp add: strip_def mem_dropWhile)

lemma sep_props:
  assumes "c \<in> set ''-._''"
  shows "\<not> isspace c" "upper_char c = [c]" "\<not> isalpha c" "\<not> isdigit c"
  using assms by (auto simp: isspace_def upper_char_def isalpha_def isdigit_def)

lemma length_split_once: "sep \<in> set s \<Longrightarrow> length (split_once sep s) = 2"
  by (simp add: split_once_def)

lemma parsed_parts_not_None: "parsed_parts comps a b \<noteq> Inr None"
  by (cases "normalize_ref a") (simp_all add: parsed_parts_def and_then_Inl and_then_Inr Let_def)

lemma parse_seps_accepts:
  "\<exists>sep\<in>set seps. sep \<in> set s \<Longrightarrow> parse_seps comps s seps \<noteq> Inr None"
  by (induction seps) (auto simp: length_split_once Let_def parsed_parts_not_None)

text \<open>A token that holds a separator is never refused: it parses or \<open>int\<close> raises.\<close>

lemma parse_pin_accepts:
  assumes "sep \<in> set ''-._''" and "sep \<in> set tok"
  shows "parse_pin comps tok \<noteq> Inr None"
proof -
  from assms(2) have "sep \<in> set (upper tok)"
    unfolding upper_def using sep_props(2)[OF assms(1)] by (auto intro!: bexI[of _ sep])
  then have "sep \<in> set (strip (upper tok))"
    using sep_props(1)[OF assms(1)] by (rule mem_strip)
  with assms(1) have ne: "parse_seps comps (strip (upper tok)) ''-._'' \<noteq> Inr None"
    by (intro parse_seps_accepts) blast
  show ?thesis
  proof (cases "parse_seps comps (strip (upper tok)) ''-._''")
    case (Inl e)
    then show ?thesis unfolding parse_pin_def Let_def by (simp add: and_then_Inl)
  next
    case (Inr found)
    with ne obtain res where "found = Some res" by (cases found) auto
    with Inr show ?thesis unfolding parse_pin_def Let_def by (simp add: and_then_Inr)
  qed
qed

lemma alnum_upper_char:
  assumes "(isalpha c \<or> isdigit c) \<and> (of_char c :: nat) < 128"
  shows "\<exists>c'. upper_char c = [c'] \<and> (isalpha c' \<or> isdigit c') \<and> (of_char c' :: nat) < 128"
proof -
  define n where "n = (of_char c :: nat)"
  from assms have n: "n < 128" by (simp add: n_def)
  show ?thesis
  proof (cases "97 \<le> n \<and> n \<le> 122")
    case True
    then have u: "upper_char c = [char_of (n - 32)]"
      by (simp add: upper_char_def n_def[symmetric] Let_def)
    from True have "(n - 32) mod 256 = n - 32" by (intro mod_less) arith
    then have "(of_char (char_of (n - 32) :: char) :: nat) = n - 32" by simp
    moreover from True have "65 \<le> n - 32 \<and> n - 32 \<le> 90" "n - 32 < 128" by arith+
    ultimately have "isalpha (char_of (n - 32))" "(of_char (char_of (n - 32) :: char) :: nat) < 128"
      by (simp_all add: isalpha_def Let_def)
    with u show ?thesis by blast
  next
    case False
    with n have "upper_char c = [c]"
      by (auto simp: upper_char_def n_def[symmetric] Let_def)
    with assms show ?thesis by blast
  qed
qed

lemma alnum_upper: "alnum s \<Longrightarrow> alnum (upper s)"
proof (induction s)
  case Nil
  then show ?case by (simp add: upper_def)
next
  case (Cons c s)
  then have c: "(isalpha c \<or> isdigit c) \<and> (of_char c :: nat) < 128" and s: "alnum (upper s)"
    by (simp_all add: alnum_def)
  from alnum_upper_char[OF c] obtain c' where
    "upper_char c = [c']" "(isalpha c' \<or> isdigit c') \<and> (of_char c' :: nat) < 128" by blast
  with s show ?case by (simp add: alnum_def upper_def)
qed

lemma ascii_digit_decimal: "isdigit c \<Longrightarrow> (of_char c :: nat) < 128 \<Longrightarrow> isdecimal c"
  by (simp add: isdigit_def isdecimal_def Let_def)

lemma alnum_decimal: "alnum s \<Longrightarrow> list_all isdecimal (filter isdigit s)"
  by (simp add: alnum_def list_all_iff ascii_digit_decimal)

lemma alnum_no_sep:
  assumes "alnum s" and "c \<in> set ''-._''"
  shows "c \<notin> set s"
proof
  assume "c \<in> set s"
  with assms(1) have "isalpha c \<or> isdigit c" by (simp add: alnum_def list_all_iff)
  with sep_props(3,4)[OF assms(2)] show False by blast
qed

lemma alnum_not_space: "alnum s \<Longrightarrow> c \<in> set s \<Longrightarrow> \<not> isspace c"
  using alpha_not_space digit_not_space by (auto simp: alnum_def list_all_iff)

lemma alnum_strip:
  assumes "alnum s"
  shows "strip s = s"
proof (rule strip_fixed, cases "s = []")
  case False
  then have "hd s \<in> set s" "last s \<in> set s" by simp_all
  then show "s = [] \<or> \<not> isspace (hd s) \<and> \<not> isspace (last s)"
    using alnum_not_space[OF assms] by blast
qed simp

text \<open>On a reference of ASCII letters and decimal digits \<open>normalize_ref\<close> returns.\<close>

lemma normalize_ref_alnum:
  assumes "alnum r"
  shows "\<exists>ref. normalize_ref r = Inr ref"
proof -
  have s: "strip (upper r) = upper r" using alnum_upper[OF assms] by (rule alnum_strip)
  have d: "list_all isdecimal (filter isdigit (strip (upper r)))"
    unfolding s using alnum_upper[OF assms] by (rule alnum_decimal)
  show ?thesis
  proof (cases "filter isalpha (strip (upper r)) \<noteq> [] \<and> filter isdigit (strip (upper r)) \<noteq> [] \<and>
                int_of_digits (filter isdigit (strip (upper r))) < 10")
    case True
    with d normalize_ref_padded_case[of r] show ?thesis by blast
  next
    case False
    with d have "filter isalpha (strip (upper r)) = [] \<or> filter isdigit (strip (upper r)) = [] \<or>
           (list_all isdecimal (filter isdigit (strip (upper r))) \<and>
            10 \<le> int_of_digits (filter isdigit (strip (upper r))))"
      by auto
    then have "normalize_ref r = Inr (strip (upper r))" by (rule normalize_ref_unchanged_case)
    then show ?thesis by blast
  qed
qed

lemma compound_strip:
  assumes "alnum r" "alnum l" "sep \<in> set ''-._''"
  shows "strip (r @ sep # l) = r @ sep # l"
proof (rule strip_fixed)
  have s: "\<not> isspace sep" using assms(3) by (rule sep_props)
  have "\<not> isspace (hd (r @ sep # l))"
  proof (cases r)
    case Nil
    with s show ?thesis by simp
  next
    case (Cons a r')
    then have "a \<in> set r" by simp
    with Cons alnum_not_space[OF assms(1)] show ?thesis by simp
  qed
  moreover have "\<not> isspace (last (r @ sep # l))"
  proof (cases "l = []")
    case True
    with s show ?thesis by simp
  next
    case False
    then have "last l \<in> set l" by simp
    with False alnum_not_space[OF assms(2)] show ?thesis by simp
  qed
  ultimately show "r @ sep # l = [] \<or> \<not> isspace (hd (r @ sep # l)) \<and> \<not> isspace (last (r @ sep # l))"
    by blast
qed

lemma split_once_compound:
  assumes "sep \<notin> set r"
  shows "split_once sep (r @ sep # l) = [r, l]"
proof -
  from assms have "takeWhile (\<lambda>c. c \<noteq> sep) (r @ sep # l) = r"
    by (induction r) auto
  moreover from assms have "dropWhile (\<lambda>c. c \<noteq> sep) (r @ sep # l) = sep # l"
    by (induction r) auto
  ultimately show ?thesis by (simp add: split_once_def)
qed

lemma parse_seps_hit:
  "sep \<in> set s \<Longrightarrow> split_once sep s = [a, b] \<Longrightarrow> parse_seps comps s (sep # seps) = parsed_parts comps a b"
  by (simp add: parsed_parts_def Let_def)

lemma parse_seps_miss:
  "sep \<notin> set s \<Longrightarrow> parse_seps comps s (sep # seps) = parse_seps comps s seps"
  by simp

lemma parse_seps_compound:
  assumes r: "alnum r" and l: "alnum l" and sep: "sep \<in> set ''-._''"
  shows "parse_seps comps (r @ sep # l) ''-._'' = parsed_parts comps r l"
proof -
  let ?s = "r @ sep # l"
  have no: "c \<notin> set ?s" if "c \<in> set ''-._''" "c \<noteq> sep" for c
    using alnum_no_sep[OF r that(1)] alnum_no_sep[OF l that(1)] that(2) by simp
  have sp: "split_once sep ?s = [r, l]"
    using alnum_no_sep[OF r sep] by (rule split_once_compound)
  have mem: "sep \<in> set ?s" by simp
  have hit: "parse_seps comps ?s (sep # seps) = parsed_parts comps r l" for seps
    using mem sp by (rule parse_seps_hit)
  from sep consider "sep = CHR ''-''" | "sep = CHR ''.''" | "sep = CHR ''_''" by auto
  then show ?thesis
  proof cases
    case 1
    show ?thesis using hit[of "''._''"] unfolding 1 .
  next
    case 2
    have "CHR ''-'' \<notin> set ?s" by (rule no) (simp_all add: 2)
    then have "parse_seps comps ?s ''-._'' = parse_seps comps ?s ''._''" by (rule parse_seps_miss)
    also have "\<dots> = parsed_parts comps r l" using hit[of "''_''"] unfolding 2 .
    finally show ?thesis .
  next
    case 3
    have "CHR ''-'' \<notin> set ?s" by (rule no) (simp_all add: 3)
    then have "parse_seps comps ?s ''-._'' = parse_seps comps ?s ''._''" by (rule parse_seps_miss)
    also have "\<dots> = parse_seps comps ?s ''_''"
    proof (rule parse_seps_miss)
      show "CHR ''.'' \<notin> set ?s" by (rule no) (simp_all add: 3)
    qed
    also have "\<dots> = parsed_parts comps r l" using hit[of "[]"] unfolding 3 .
    finally show ?thesis .
  qed
qed

lemma normalize_ref_upper: "normalize_ref (upper r) = normalize_ref r"
  by (simp add: normalize_ref_def upper_idem)

lemma parsed_parts_alnum:
  assumes "alnum l" "normalize_ref r = Inr ref" "\<not> single_pin comps ref"
  shows "parsed_parts comps (upper r) (upper l) = Inr (Some (ref, Some (upper l)))"
  using assms(2,3)
  by (simp add: parsed_parts_def Let_def normalize_ref_upper and_then_Inr
        alnum_strip[OF alnum_upper[OF assms(1)]] upper_idem)

lemma parse_pin_compound:
  assumes r: "alnum r" and l: "alnum l" and sep: "sep \<in> set ''-._''"
    and whole: "\<not> single_pin comps (upper (r @ sep # l))"
    and ref: "normalize_ref r = Inr ref"
    and single: "\<not> single_pin comps ref"
  shows "parse_pin comps (r @ sep # l) = Inr (Some (ref, Some (upper l)))"
proof -
  have u: "upper (r @ sep # l) = upper r @ sep # upper l"
    using sep_props(2)[OF sep] by (simp add: upper_def)
  have s: "strip (upper r @ sep # upper l) = upper r @ sep # upper l"
    using alnum_upper[OF r] alnum_upper[OF l] sep by (rule compound_strip)
  have ps: "parse_seps comps (upper r @ sep # upper l) ''-._'' = Inr (Some (ref, Some (upper l)))"
    unfolding parse_seps_compound[OF alnum_upper[OF r] alnum_upper[OF l] sep]
    using l ref single by (rule parsed_parts_alnum)
  have w: "\<not> single_pin comps (upper r @ sep # upper l)" using whole unfolding u .
  show ?thesis
    unfolding parse_pin_def Let_def u s ps using w by (simp add: and_then_Inr)
qed

text \<open>
  The reference of a parsed pin is registered or is a normalized reference, so the
  \<open>add_component\<close> of \<open>add_connection\<close> does not raise: once both pins have parsed,
  \<open>add_connection\<close> returns.
\<close>

lemma parsed_parts_ref:
  assumes "parsed_parts comps a b = Inr (Some p)"
  shows "normalize_ref (fst p) = Inr (fst p)"
proof -
  from assms obtain ref where n: "normalize_ref a = Inr ref"
    by (auto simp: parsed_parts_def and_then_eq_Inr)
  with assms have "fst p = ref"
    by (auto simp: parsed_parts_def and_then_Inr Let_def split: if_splits)
  with normalize_ref_idempotent_result[OF n] show ?thesis by simp
qed

lemma parse_seps_ref:
  "parse_seps comps s seps = Inr (Some p) \<Longrightarrow> normalize_ref (fst p) = Inr (fst p)"
proof (induction seps)
  case Nil
  then show ?case by simp
next
  case (Cons sep seps)
  show ?case
  proof (cases "sep \<in> set s")
    case True
    then have "length (split_once sep s) = 2" by (rule length_split_once)
    with True Cons.prems
    have "parsed_parts comps (split_once sep s ! 0) (split_once sep s ! 1) = Inr (Some p)"
      by (simp add: Let_def)
    then show ?thesis by (rule parsed_parts_ref)
  next
    case False
    with Cons.prems have "parse_seps comps s seps = Inr (Some p)" by simp
    then show ?thesis by (rule Cons.IH)
  qed
qed

lemma single_pin_registered: "single_pin comps ref \<Longrightarrow> map_of comps ref \<noteq> None"
  by (auto simp: single_pin_def split: option.splits)

lemma parse_pin_ref:
  assumes "parse_pin comps pin0 = Inr (Some p)"
  shows "map_of comps (fst p) \<noteq> None \<or> normalize_ref (fst p) = Inr (fst p)"
proof (cases "single_pin comps (strip (upper pin0))")
  case True
  with assms have "fst p = strip (upper pin0)" by (auto simp: parse_pin_def Let_def)
  with True show ?thesis by (simp add: single_pin_registered)
next
  case False
  show ?thesis
  proof (cases "parse_seps comps (strip (upper pin0)) ''-._''")
    case (Inl e)
    with assms False show ?thesis by (simp add: parse_pin_def Let_def and_then_Inl)
  next
    case (Inr found)
    show ?thesis
    proof (cases found)
      case (Some r)
      with assms False Inr have "r = p" by (simp add: parse_pin_def Let_def and_then_Inr)
      with Inr Some parse_seps_ref show ?thesis by blast
    next
      case None
      with assms False Inr have
        e: "and_then (normalize_ref (strip (upper pin0)))
              (\<lambda>normalized. if single_pin comps normalized then Inr (Some (normalized, None))
                             else Inr None) = Inr (Some p)"
        by (simp add: parse_pin_def Let_def and_then_Inr)
      then obtain n where n: "normalize_ref (strip (upper pin0)) = Inr n"
        and "(if single_pin comps n then Inr (Some (n, None)) else Inr None) = (Inr (Some p) :: error + _)"
        unfolding and_then_eq_Inr by blast
      then have "fst p = n" by (auto split: if_splits)
      with normalize_ref_idempotent_result[OF n] show ?thesis by simp
    qed
  qed
qed

lemma auto_add_returns:
  assumes "map_of (components st) ref \<noteq> None \<or> normalize_ref ref = Inr ref"
  shows "\<exists>st'. auto_add st ref = Inr st'"
  using assms by (auto simp: auto_add_def add_component_def and_then_Inr Let_def)

lemma auto_add_keeps:
  assumes "auto_add st ref = Inr st'" and "map_of (components st) k \<noteq> None"
  shows "map_of (components st') k \<noteq> None"
  using assms
  by (auto simp: auto_add_def add_component_def and_then_eq_Inr Let_def update_conv' split: if_splits)

lemma add_connection_returns:
  assumes p1: "parse_pin (components st) pin1 = Inr (Some p1)"
    and p2: "parse_pin (components st) pin2 = Inr (Some p2)"
  shows "\<exists>ok st'. add_connection st pin1 pin2 = Inr (ok, st') \<and>
           sorted_pair (format_pin p1) (format_pin p2) \<in> connections st' \<and>
           (sorted_pair (format_pin p1) (format_pin p2) \<notin> connections st \<longrightarrow> ok)"
proof -
  from auto_add_returns[OF parse_pin_ref[OF p1]] obtain st0 where a0: "auto_add st (fst p1) = Inr st0"
    by blast
  have "map_of (components st0) (fst p2) \<noteq> None \<or> normalize_ref (fst p2) = Inr (fst p2)"
    using parse_pin_ref[OF p2] auto_add_keeps[OF a0] by blast
  from auto_add_returns[OF this] obtain st1 where a1: "auto_add st0 (fst p2) = Inr st1" by blast
  have c: "connections st1 = connections st"
    using a0 a1 by (simp add: connections_auto_add)
  define conn where "conn = sorted_pair (format_pin p1) (format_pin p2)"
  have e: "add_connection st pin1 pin2 =
           (if conn \<in> connections st then Inr (False, st1)
            else Inr (True, st1\<lparr>connections := insert conn (connections st)\<rparr>))"
    unfolding add_connection_parsed[OF p1 p2 a0 a1] c conn_def ..
  show ?thesis
  proof (cases "conn \<in> connections st")
    case True
    with e have r: "add_connection st pin1 pin2 = Inr (False, st1)" by simp
    from True c have "conn \<in> connections st1" by simp
    with r True show ?thesis unfolding conn_def[symmetric] by blast
  next
    case False
    with e have r: "add_connection st pin1 pin2 =
        Inr (True, st1\<lparr>connections := insert conn (connections st)\<rparr>)" by simp
    have "conn \<in> connections (st1\<lparr>connections := insert conn (connections st)\<rparr>)" by simp
    with r show ?thesis unfolding conn_def[symmetric] by blast
  qed
qed

text \<open>
  C10: \<open>parse_pin\<close> accepts a compound token \<open>ref sep label\<close> (reference and label of
  ASCII letters and decimal digits, separator \<open>-\<close>, \<open>.\<close> or \<open>_\<close>) whose reference is not
  a registered one-pin component, whatever the pin count of the component: the reference
  normalizes, and the result is the normalized reference with the uppercased label. So
  \<open>add_connection\<close> returns with the pair of that pin and any other pin that parses in the
  store, and succeeds when the pair is new; the witness is pin 7 of a resistor with two
  pins.
\<close>

theorem parse_pin_ignores_pin_count:
  assumes "alnum r" and "alnum l" and "sep \<in> set ''-._''"
    and "\<not> single_pin (components st) (upper (r @ sep # l))"
    and "parse_pin (components st) pin2 = Inr (Some p2)"
  shows "\<exists>ref. normalize_ref r = Inr ref \<and>
           (\<not> single_pin (components st) ref \<longrightarrow>
              parse_pin (components st) (r @ sep # l) = Inr (Some (ref, Some (upper l))) \<and>
              (\<exists>ok st'. add_connection st (r @ sep # l) pin2 = Inr (ok, st') \<and>
                 sorted_pair (ref @ ''-'' @ upper l) (format_pin p2) \<in> connections st' \<and>
                 (sorted_pair (ref @ ''-'' @ upper l) (format_pin p2) \<notin> connections st \<longrightarrow> ok)))"
proof -
  from normalize_ref_alnum[OF assms(1)] obtain ref where ref: "normalize_ref r = Inr ref" by blast
  have "parse_pin (components st) (r @ sep # l) = Inr (Some (ref, Some (upper l))) \<and>
        (\<exists>ok st'. add_connection st (r @ sep # l) pin2 = Inr (ok, st') \<and>
           sorted_pair (ref @ ''-'' @ upper l) (format_pin p2) \<in> connections st' \<and>
           (sorted_pair (ref @ ''-'' @ upper l) (format_pin p2) \<notin> connections st \<longrightarrow> ok))"
    if single: "\<not> single_pin (components st) ref"
  proof -
    have p: "parse_pin (components st) (r @ sep # l) = Inr (Some (ref, Some (upper l)))"
      using assms(1-4) ref single by (rule parse_pin_compound)
    have f: "format_pin (ref, Some (upper l)) = ref @ ''-'' @ upper l"
      by (simp add: format_pin_def)
    from add_connection_returns[OF p assms(5)] p show ?thesis unfolding f by blast
  qed
  with ref show ?thesis by blast
qed

theorem parse_pin_ignores_pin_count_witness:
  "add_component empty_project ''R1'' None = Inr resistor_project \<and>
   map_option c_pins (map_of (components resistor_project) ''R01'') = Some 2 \<and>
   normalize_ref ''R1'' = Inr ''R01'' \<and>
   parse_pin (components resistor_project) ''R1-7'' = Inr (Some (''R01'', Some ''7'')) \<and>
   (\<exists>st'. add_connection resistor_project ''R1-7'' ''R2-1'' = Inr (True, st') \<and>
          (''R01-7'', ''R02-1'') \<in> connections st')"
proof -
  have g: "add_component empty_project ''R1'' None = Inr resistor_project" by code_simp
  have c: "map_option c_pins (map_of (components resistor_project) ''R01'') = Some 2" by code_simp
  have a: "alnum ''R1''" "alnum ''7''" by code_simp+
  have s: "CHR ''-'' \<in> set ''-._''" by simp
  have w: "\<not> single_pin (components resistor_project) (upper (''R1'' @ CHR ''-'' # ''7''))" by code_simp
  have n: "normalize_ref ''R1'' = Inr ''R01''" by code_simp
  have sp: "\<not> single_pin (components resistor_project) ''R01''" by code_simp
  have p2: "parse_pin (components resistor_project) ''R2-1'' = Inr (Some (''R02'', Some ''1''))" by code_simp
  have e: "upper ''7'' = ''7''"
    "sorted_pair (''R01'' @ ''-'' @ ''7'') (format_pin (''R02'', Some ''1'')) = (''R01-7'', ''R02-1'')"
    by code_simp+
  have fresh: "(''R01-7'', ''R02-1'') \<notin> connections resistor_project" by code_simp
  from parse_pin_ignores_pin_count[OF a s w p2] n sp
  have "parse_pin (components resistor_project) (''R1'' @ CHR ''-'' # ''7'') = Inr (Some (''R01'', Some (upper ''7''))) \<and>
        (\<exists>ok st'. add_connection resistor_project (''R1'' @ CHR ''-'' # ''7'') ''R2-1'' = Inr (ok, st') \<and>
           sorted_pair (''R01'' @ ''-'' @ upper ''7'') (format_pin (''R02'', Some ''1'')) \<in> connections st' \<and>
           (sorted_pair (''R01'' @ ''-'' @ upper ''7'') (format_pin (''R02'', Some ''1''))
              \<notin> connections resistor_project \<longrightarrow> ok))"
    by auto
  then have "parse_pin (components resistor_project) ''R1-7'' = Inr (Some (''R01'', Some ''7'')) \<and>
        (\<exists>st'. add_connection resistor_project ''R1-7'' ''R2-1'' = Inr (True, st') \<and>
           (''R01-7'', ''R02-1'') \<in> connections st')"
    unfolding e using fresh by auto
  with g c n show ?thesis by blast
qed

section \<open>Remaining pins\<close>

lemma startswith_Nil: "startswith s []"
  by (simp add: startswith_def)

lemma filter_test: 
  "(case fp of None \<Rightarrow> False | Some f \<Rightarrow> f \<noteq> [] \<and> \<not> startswith ref (upper f)) = (\<not> passes_filter fp ref)"
proof (cases fp)
  case None
  then show ?thesis by (simp add: passes_filter_def)
next
  case (Some f)
  show ?thesis
  proof (cases "f = []")
    case True
    with Some show ?thesis by (simp add: passes_filter_def upper_def startswith_Nil)
  next
    case False
    with Some show ?thesis by (simp add: passes_filter_def)
  qed
qed

lemma in_remaining_of:
  "(ref, n, v) \<in> set (remaining_of connected fp x) \<longleftrightarrow>
     ref = fst x \<and> 1 < c_pins (snd x) \<and> passes_filter fp ref \<and> 1 \<le> n \<and> n \<le> c_pins (snd x) \<and>
     ref @ ''-'' @ str_int n \<notin> connected \<and> v = c_value (snd x)"
  unfolding remaining_of_def Let_def filter_test
  by (cases "c_pins (snd x) \<le> 1"; cases "passes_filter fp (fst x)") auto

lemma in_get_remaining_pins:
  "(ref, n, v) \<in> set (get_remaining_pins st fp) \<longleftrightarrow>
     (\<exists>info. (ref, info) \<in> set (components st) \<and> 1 < c_pins info \<and> passes_filter fp ref \<and>
         1 \<le> n \<and> n \<le> c_pins info \<and> ref @ ''-'' @ str_int n \<notin> endpoints (connections st) \<and>
         v = c_value info)"
proof -
  have "(ref, n, v) \<in> set (get_remaining_pins st fp) \<longleftrightarrow>
          (\<exists>x \<in> set (components st). (ref, n, v) \<in> set (remaining_of (endpoints (connections st)) fp x))"
    by (simp add: get_remaining_pins_def Let_def)
  also have "\<dots> \<longleftrightarrow> (\<exists>info. (ref, info) \<in> set (components st) \<and> 1 < c_pins info \<and> passes_filter fp ref \<and>
         1 \<le> n \<and> n \<le> c_pins info \<and> ref @ ''-'' @ str_int n \<notin> endpoints (connections st) \<and>
         v = c_value info)"
    unfolding in_remaining_of by force
  finally show ?thesis .
qed

lemma str_int_small: "str_int 1 = ''1''" "str_int 2 = ''2''" "str_int 3 = ''3''"
  by code_simp+

lemma int_1_to_3: "1 \<le> n \<and> n \<le> 3 \<longleftrightarrow> n = 1 \<or> n = 2 \<or> n = 3" for n :: int
  by arith

lemma remaining_three:
  assumes m: "map_of (components st) ref = Some info" and d: "distinct (map fst (components st))"
    and c: "c_pins info = 3" and p: "passes_filter fp ref"
    and e1: "ref @ ''-1'' \<in> endpoints (connections st)"
    and e2: "ref @ ''-2'' \<notin> endpoints (connections st)"
    and e3: "ref @ ''-3'' \<notin> endpoints (connections st)"
  shows "(ref, n, v) \<in> set (get_remaining_pins st fp) \<longleftrightarrow> (n = 2 \<or> n = 3) \<and> v = c_value info"
proof
  assume "(ref, n, v) \<in> set (get_remaining_pins st fp)"
  then obtain info' where i: "(ref, info') \<in> set (components st)" "1 \<le> n" "n \<le> c_pins info'"
      "ref @ ''-'' @ str_int n \<notin> endpoints (connections st)" "v = c_value info'"
    unfolding in_get_remaining_pins by blast
  from i(1) d m have "info' = info" by simp
  with i c have n: "n = 1 \<or> n = 2 \<or> n = 3" and v: "v = c_value info" by (simp_all add: int_1_to_3[symmetric])
  from i(4) e1 have "n \<noteq> 1" by (auto simp: str_int_small)
  with n v show "(n = 2 \<or> n = 3) \<and> v = c_value info" by simp
next
  assume a: "(n = 2 \<or> n = 3) \<and> v = c_value info"
  from m have i: "(ref, info) \<in> set (components st)" by (rule map_of_SomeD)
  from a e2 e3 have "ref @ ''-'' @ str_int n \<notin> endpoints (connections st)"
    by (auto simp: str_int_small)
  moreover from a c have "1 < c_pins info" "1 \<le> n" "n \<le> c_pins info" by auto
  ultimately show "(ref, n, v) \<in> set (get_remaining_pins st fp)"
    unfolding in_get_remaining_pins using i p a by blast
qed

text \<open>
  C7: for a project whose component dict has one entry per reference,
  \<open>get_remaining_pins\<close> returns exactly the triples of a component with more than one pin
  that passes the prefix filter, a pin number from 1 to its pin count whose compound form is
  no endpoint of a stored connection, and the component's value; components with one pin
  never appear. A component with three pins of which only pin 1 is connected contributes
  the pins 2 and 3.
\<close>

theorem remaining_pins_exact:
  assumes "distinct (map fst (components st))"
  shows "set (get_remaining_pins st filter_prefix) =
           {(ref, n, v). \<exists>info. map_of (components st) ref = Some info \<and> 1 < c_pins info \<and>
              passes_filter filter_prefix ref \<and> 1 \<le> n \<and> n \<le> c_pins info \<and>
              ref @ ''-'' @ str_int n \<notin> endpoints (connections st) \<and> v = c_value info} \<and>
         (\<forall>ref info. map_of (components st) ref = Some info \<and> c_pins info = 3 \<and>
              passes_filter filter_prefix ref \<and>
              ref @ ''-1'' \<in> endpoints (connections st) \<and>
              ref @ ''-2'' \<notin> endpoints (connections st) \<and>
              ref @ ''-3'' \<notin> endpoints (connections st) \<longrightarrow>
              {(r, n, v) \<in> set (get_remaining_pins st filter_prefix). r = ref} =
                {(ref, 2, c_value info), (ref, 3, c_value info)})"
proof (intro conjI allI impI)
  have m: "(ref, info) \<in> set (components st) \<longleftrightarrow> map_of (components st) ref = Some info" for ref info
    using assms by simp
  show "set (get_remaining_pins st filter_prefix) =
           {(ref, n, v). \<exists>info. map_of (components st) ref = Some info \<and> 1 < c_pins info \<and>
              passes_filter filter_prefix ref \<and> 1 \<le> n \<and> n \<le> c_pins info \<and>
              ref @ ''-'' @ str_int n \<notin> endpoints (connections st) \<and> v = c_value info}"
  proof (rule set_eqI)
    fix x :: "string \<times> int \<times> string"
    obtain ref n v where x: "x = (ref, n, v)" by (cases x) auto
    show "x \<in> set (get_remaining_pins st filter_prefix) \<longleftrightarrow>
          x \<in> {(ref, n, v). \<exists>info. map_of (components st) ref = Some info \<and> 1 < c_pins info \<and>
              passes_filter filter_prefix ref \<and> 1 \<le> n \<and> n \<le> c_pins info \<and>
              ref @ ''-'' @ str_int n \<notin> endpoints (connections st) \<and> v = c_value info}"
      unfolding x in_get_remaining_pins m by simp
  qed
next
  fix ref info
  assume a: "map_of (components st) ref = Some info \<and> c_pins info = 3 \<and>
              passes_filter filter_prefix ref \<and>
              ref @ ''-1'' \<in> endpoints (connections st) \<and>
              ref @ ''-2'' \<notin> endpoints (connections st) \<and>
              ref @ ''-3'' \<notin> endpoints (connections st)"
  have mem3: "(ref, n, v) \<in> set (get_remaining_pins st filter_prefix) \<longleftrightarrow>
                 (n = 2 \<or> n = 3) \<and> v = c_value info" for n v
    using a assms by (intro remaining_three) simp_all
  show "{(r, n, v) \<in> set (get_remaining_pins st filter_prefix). r = ref} =
                {(ref, 2, c_value info), (ref, 3, c_value info)}"
  proof (rule set_eqI)
    fix x :: "string \<times> int \<times> string"
    obtain r n v where x: "x = (r, n, v)" by (cases x) auto
    show "x \<in> {(r, n, v) \<in> set (get_remaining_pins st filter_prefix). r = ref} \<longleftrightarrow>
          x \<in> {(ref, 2, c_value info), (ref, 3, c_value info)}"
      unfolding x using mem3[of n v] by auto
  qed
qed

theorem remaining_pins_exact_witness:
  "add_component empty_project ''Q1'' None = Inr q_declared \<and>
   add_connection q_declared ''Q1-1'' ''R1-1'' = Inr (True, q_project) \<and>
   get_remaining_pins q_project (Some ''q'') = [(''Q01'', 2, ''?''), (''Q01'', 3, ''?'')] \<and>
   {(r, n, v) \<in> set (get_remaining_pins q_project (Some ''q'')). r = ''Q01''} =
     {(''Q01'', 2, ''?''), (''Q01'', 3, ''?'')}"
proof -
  define info where
    "info = \<lparr>c_pins = 3, c_value = ''?'', c_package = ''?'', c_description = [], c_type = ''transistor''\<rparr>"
  have d: "distinct (map fst (components q_project))" by code_simp
  have h: "map_of (components q_project) ''Q01'' = Some info" unfolding info_def by code_simp
  have c: "c_pins info = 3" "c_value info = ''?''" by (simp_all add: info_def)
  have p: "passes_filter (Some ''q'') ''Q01''" by code_simp
  have e1: "''Q01'' @ ''-1'' \<in> endpoints (connections q_project)" by code_simp
  have e2: "''Q01'' @ ''-2'' \<notin> endpoints (connections q_project)" by code_simp
  have e3: "''Q01'' @ ''-3'' \<notin> endpoints (connections q_project)" by code_simp
  have g: "get_remaining_pins q_project (Some ''q'') = [(''Q01'', 2, ''?''), (''Q01'', 3, ''?'')]"
    by code_simp
  have all: "map_of (components q_project) ''Q01'' = Some info \<and> c_pins info = 3 \<and>
      passes_filter (Some ''q'') ''Q01'' \<and>
      ''Q01'' @ ''-1'' \<in> endpoints (connections q_project) \<and>
      ''Q01'' @ ''-2'' \<notin> endpoints (connections q_project) \<and>
      ''Q01'' @ ''-3'' \<notin> endpoints (connections q_project)"
    using h c(1) p e1 e2 e3 by blast
  have "{(r, n, v) \<in> set (get_remaining_pins q_project (Some ''q'')). r = ''Q01''} =
     {(''Q01'', 2, c_value info), (''Q01'', 3, c_value info)}"
    by (rule remaining_pins_exact[OF d, of "Some ''q''", THEN conjunct2, rule_format, OF all])
  then have "{(r, n, v) \<in> set (get_remaining_pins q_project (Some ''q'')). r = ''Q01''} =
     {(''Q01'', 2, ''?''), (''Q01'', 3, ''?'')}" unfolding c(2) .
  moreover have "add_component empty_project ''Q1'' None = Inr q_declared"
    "add_connection q_declared ''Q1-1'' ''R1-1'' = Inr (True, q_project)" by code_simp+
  ultimately show ?thesis using g by blast
qed


section \<open>The union-find of the net builder\<close>

lemma root_of_fun: "root_of p x r \<Longrightarrow> root_of p x r' \<Longrightarrow> r = r'"
proof (induction arbitrary: r' rule: root_of.induct)
  case (absent x)
  from absent.prems absent.hyps show ?case by cases auto
next
  case (self x)
  from self.prems self.hyps show ?case by cases auto
next
  case (step x y r)
  from step.prems step.hyps(1,2) have "root_of p y r'" by cases auto
  then show ?case by (rule step.IH)
qed

lemma root_is_root: "root_of p x r \<Longrightarrow> p r = None \<or> p r = Some r"
  by (induction rule: root_of.induct) auto

lemma root_of_root: "p r = None \<or> p r = Some r \<Longrightarrow> root_of p r r"
  by (auto intro: root_of.intros)

lemma rep_of_eq: "root_of p x r \<Longrightarrow> rep_of p x = r"
  unfolding rep_of_def by (rule the_equality) (auto dest: root_of_fun)

lemma rooted_rep: "rooted p \<Longrightarrow> root_of p x (rep_of p x)"
  unfolding rooted_def using rep_of_eq by metis

lemma rooted_empty: "rooted Map.empty"
  by (simp add: rooted_def) (blast intro: root_of.absent)

lemma keeps_roots_refl: "keeps_roots p p"
  by (simp add: keeps_roots_def)

lemma keeps_roots_trans: "keeps_roots p q \<Longrightarrow> keeps_roots q s \<Longrightarrow> keeps_roots p s"
  by (simp add: keeps_roots_def)

lemma keeps_roots_rooted: "rooted p \<Longrightarrow> keeps_roots p q \<Longrightarrow> rooted q"
  unfolding rooted_def keeps_roots_def by blast

lemma keeps_roots_rep:
  assumes "rooted p" and "keeps_roots p q"
  shows "rep_of q x = rep_of p x"
proof -
  from assms(1) have "root_of p x (rep_of p x)" by (rule rooted_rep)
  with assms(2) have "root_of q x (rep_of p x)" by (simp add: keeps_roots_def)
  then show ?thesis by (rule rep_of_eq)
qed

lemma root_of_init:
  assumes "p x = None" and "root_of p y r"
  shows "root_of (p(x \<mapsto> x)) y r"
  using assms(2)
proof (induction rule: root_of.induct)
  case (absent y)
  then show ?case by (cases "y = x") (auto intro: root_of.intros)
next
  case (self y)
  with assms(1) show ?case by (auto intro: root_of.self)
next
  case (step y z r)
  from step.hyps(1) assms(1) have "y \<noteq> x" by auto
  with step show ?case by (auto intro: root_of.step)
qed

lemma root_of_compress:
  assumes x: "root_of p x r" and y: "root_of p y r'"
  shows "root_of (p(x \<mapsto> r)) y r'"
  using y
proof (induction rule: root_of.induct)
  case (absent y)
  show ?case
  proof (cases "y = x")
    case True
    with absent have "root_of p x x" by (auto intro: root_of.absent)
    with x have "r = x" by (rule root_of_fun)
    with True show ?thesis by (auto intro: root_of.self)
  next
    case False
    with absent show ?thesis by (auto intro: root_of.absent)
  qed
next
  case (self y)
  show ?case
  proof (cases "y = x")
    case True
    with self have "root_of p x x" by (auto intro: root_of.self)
    with x have "r = x" by (rule root_of_fun)
    with True show ?thesis by (auto intro: root_of.self)
  next
    case False
    with self show ?thesis by (auto intro: root_of.self)
  qed
next
  case (step y z r')
  show ?case
  proof (cases "y = x")
    case True
    from step.hyps have "root_of p y r'" by (auto intro: root_of.step)
    with True x have rr: "r = r'" by (auto dest: root_of_fun)
    show ?thesis
    proof (cases "r = x")
      case True
      with rr \<open>y = x\<close> show ?thesis by (auto intro: root_of.self)
    next
      case False
      from x have "p r = None \<or> p r = Some r" by (rule root_is_root)
      with False have "(p(x \<mapsto> r)) r = None \<or> (p(x \<mapsto> r)) r = Some r" by simp
      then have "root_of (p(x \<mapsto> r)) r r" by (rule root_of_root)
      moreover have "(p(x \<mapsto> r)) x = Some r" by simp
      ultimately have "root_of (p(x \<mapsto> r)) x r" using False by (rule root_of.step[rotated 2])
      with rr \<open>y = x\<close> show ?thesis by blast
    qed
  next
    case False
    with step show ?thesis by (auto intro: root_of.step)
  qed
qed

lemma root_of_link:
  assumes rx: "p rx = None \<or> p rx = Some rx" and ry: "p ry = None \<or> p ry = Some ry"
    and ne: "rx \<noteq> ry" and z: "root_of p z r"
  shows "root_of (p(rx \<mapsto> ry)) z (if r = rx then ry else r)"
  using z
proof (induction rule: root_of.induct)
  case (absent z)
  show ?case
  proof (cases "z = rx")
    case True
    from ry ne have "root_of (p(rx \<mapsto> ry)) ry ry" by (intro root_of_root) auto
    then have "root_of (p(rx \<mapsto> ry)) rx ry" using ne by (intro root_of.step[of _ rx ry]) auto
    with True show ?thesis by (simp only: simp_thms if_True)
  next
    case False
    with absent show ?thesis by (auto intro: root_of.absent)
  qed
next
  case (self z)
  show ?case
  proof (cases "z = rx")
    case True
    from ry ne have "root_of (p(rx \<mapsto> ry)) ry ry" by (intro root_of_root) auto
    then have "root_of (p(rx \<mapsto> ry)) rx ry" using ne by (intro root_of.step[of _ rx ry]) auto
    with True show ?thesis by (simp only: simp_thms if_True)
  next
    case False
    with self show ?thesis by (auto intro: root_of.self)
  qed
next
  case (step z w r)
  from step.hyps(1,2) rx have "z \<noteq> rx" by auto
  with step show ?case by (auto intro: root_of.step)
qed

lemma find_uf_root:
  assumes "root_of p x r"
  shows "\<exists>p'. find_uf p x = Some (p', r) \<and> keeps_roots p p'"
  using assms
proof (induction rule: root_of.induct)
  case (absent x)
  then have "find_uf p x = Some (p(x \<mapsto> x), x)"
    by (subst find_uf.simps) simp
  moreover have "keeps_roots p (p(x \<mapsto> x))"
    unfolding keeps_roots_def using root_of_init[of p x] absent by blast
  ultimately show ?case by blast
next
  case (self x)
  then have "find_uf p x = Some (p, x)"
    by (subst find_uf.simps) simp
  then show ?case using keeps_roots_refl by blast
next
  case (step x y r)
  then obtain p2 where f: "find_uf p y = Some (p2, r)" and k: "keeps_roots p p2" by blast
  from step.hyps(1,2) f have "find_uf p x = Some (p2(x \<mapsto> r), r)"
    by (subst find_uf.simps) simp
  moreover have "keeps_roots p (p2(x \<mapsto> r))"
  proof -
    from step.hyps have "root_of p x r" by (auto intro: root_of.step)
    with k have x2: "root_of p2 x r" by (simp add: keeps_roots_def)
    have "keeps_roots p2 (p2(x \<mapsto> r))"
      unfolding keeps_roots_def using root_of_compress[OF x2] by blast
    with k show ?thesis by (rule keeps_roots_trans)
  qed
  ultimately show ?case by blast
qed

lemma find_uf_rooted:
  assumes "rooted p"
  shows "\<exists>p'. find_uf p x = Some (p', rep_of p x) \<and> keeps_roots p p' \<and> rooted p'"
proof -
  from assms have "root_of p x (rep_of p x)" by (rule rooted_rep)
  then obtain p' where "find_uf p x = Some (p', rep_of p x)" "keeps_roots p p'"
    using find_uf_root by blast
  with assms show ?thesis using keeps_roots_rooted by blast
qed

lemma rooted_link:
  assumes r: "rooted p" and rx: "p rx = None \<or> p rx = Some rx" and ry: "p ry = None \<or> p ry = Some ry"
    and ne: "rx \<noteq> ry"
  shows "rooted (p(rx \<mapsto> ry))"
  unfolding rooted_def
proof
  fix z
  from r have "root_of p z (rep_of p z)" by (rule rooted_rep)
  from root_of_link[OF rx ry ne this] show "\<exists>r. root_of (p(rx \<mapsto> ry)) z r" by blast
qed

lemma union_uf_rooted:
  assumes "rooted p"
  shows "\<exists>p'. union_uf p x y = Some p' \<and> rooted p'"
proof -
  from find_uf_rooted[OF assms, of x] obtain p1 where
    f1: "find_uf p x = Some (p1, rep_of p x)" and k1: "keeps_roots p p1" and r1: "rooted p1" by blast
  from find_uf_rooted[OF r1, of y] obtain p2 where
    f2: "find_uf p1 y = Some (p2, rep_of p1 y)" and k2: "keeps_roots p1 p2" and r2: "rooted p2" by blast
  let ?rx = "rep_of p x" and ?ry = "rep_of p1 y"
  have u: "union_uf p x y = Some (if ?rx \<noteq> ?ry then p2(?rx \<mapsto> ?ry) else p2)"
    by (simp add: union_uf_def f1 f2)
  show ?thesis
  proof (cases "?rx = ?ry")
    case True
    with u r2 show ?thesis by simp
  next
    case False
    have "root_of p x ?rx" using assms by (rule rooted_rep)
    with k1 k2 have "root_of p2 x ?rx" by (simp add: keeps_roots_def)
    then have rx: "p2 ?rx = None \<or> p2 ?rx = Some ?rx" by (rule root_is_root)
    have "root_of p1 y ?ry" using r1 by (rule rooted_rep)
    with k2 have "root_of p2 y ?ry" by (simp add: keeps_roots_def)
    then have ry: "p2 ?ry = None \<or> p2 ?ry = Some ?ry" by (rule root_is_root)
    from rooted_link[OF r2 rx ry False] u False show ?thesis by simp
  qed
qed

lemma union_all_rooted:
  "rooted p \<Longrightarrow> \<exists>p'. union_all p cs = Some p' \<and> rooted p'"
proof (induction cs arbitrary: p)
  case Nil
  then show ?case by simp
next
  case (Cons c cs)
  from union_uf_rooted[OF Cons.prems, of "fst c" "snd c"] obtain p1 where
    u: "union_uf p (fst c) (snd c) = Some p1" and r: "rooted p1" by blast
  from Cons.IH[OF r] u show ?case by simp
qed

lemma nets_ok_empty: "nets_ok \<rho> {} []"
  by (simp add: nets_ok_def)

lemma nets_ok_add:
  assumes "nets_ok \<rho> S nets"
  shows "nets_ok \<rho> (insert x S) (nets_add nets (\<rho> x) x)"
proof -
  from assms have d: "distinct (map fst nets)"
    and m: "\<And>k. map_of nets k = (if k \<in> \<rho> ` S then Some {x \<in> S. \<rho> x = k} else None)"
    by (simp_all add: nets_ok_def)
  have old: "(case map_of nets (\<rho> x) of None \<Rightarrow> {} | Some s \<Rightarrow> s) = {y \<in> S. \<rho> y = \<rho> x}"
  proof (cases "\<rho> x \<in> \<rho> ` S")
    case True
    then show ?thesis by (simp add: m)
  next
    case False
    then have "{y \<in> S. \<rho> y = \<rho> x} = {}" by (metis (mono_tags, lifting) Collect_empty_eq image_eqI)
    with False show ?thesis by (simp add: m)
  qed
  have "map_of (nets_add nets (\<rho> x) x) k =
          (if k \<in> \<rho> ` insert x S then Some {y \<in> insert x S. \<rho> y = k} else None)" for k
  proof (cases "k = \<rho> x")
    case True
    have "insert x {y \<in> S. \<rho> y = \<rho> x} = {y \<in> insert x S. \<rho> y = \<rho> x}" by auto
    with True show ?thesis by (simp add: nets_add_def update_conv' old)
  next
    case False
    then have "{y \<in> insert x S. \<rho> y = k} = {y \<in> S. \<rho> y = k}" by auto
    with False show ?thesis by (simp add: nets_add_def update_conv' m)
  qed
  moreover have "distinct (map fst (nets_add nets (\<rho> x) x))"
    using d by (simp add: nets_add_def distinct_update)
  ultimately show ?thesis by (simp add: nets_ok_def)
qed

lemma group_pin_ok:
  assumes r: "rooted p" and n: "nets_ok (rep_of p) S nets"
  shows "\<exists>p' nets'. group_pin (p, nets) x = Some (p', nets') \<and> rooted p' \<and> rep_of p' = rep_of p \<and>
           nets_ok (rep_of p) (insert x S) nets'"
proof -
  from find_uf_rooted[OF r, of x] obtain p' where
    f: "find_uf p x = Some (p', rep_of p x)" and k: "keeps_roots p p'" and r': "rooted p'" by blast
  have "group_pin (p, nets) x = Some (p', nets_add nets (rep_of p x) x)"
    by (simp add: group_pin_def f)
  moreover have "rep_of p' = rep_of p"
    using keeps_roots_rep[OF r k] by (rule ext)
  moreover note nets_ok_add[OF n, of x] r'
  ultimately show ?thesis by blast
qed

lemma group_all_ok:
  assumes "rooted p" and "nets_ok (rep_of p) S nets"
  shows "\<exists>p' nets'. group_all (p, nets) cs = Some (p', nets') \<and>
           nets_ok (rep_of p) (S \<union> endpoints (set cs)) nets'"
  using assms
proof (induction cs arbitrary: p S nets)
  case Nil
  then show ?case by (simp add: endpoints_def)
next
  case (Cons c cs)
  from group_pin_ok[OF Cons.prems, of "fst c"] obtain p1 nets1 where
    g1: "group_pin (p, nets) (fst c) = Some (p1, nets1)" and r1: "rooted p1"
    and e1: "rep_of p1 = rep_of p" and n1: "nets_ok (rep_of p) (insert (fst c) S) nets1" by blast
  from n1 e1 have n1': "nets_ok (rep_of p1) (insert (fst c) S) nets1" by simp
  from group_pin_ok[OF r1 n1', of "snd c"] obtain p2 nets2 where
    g2: "group_pin (p1, nets1) (snd c) = Some (p2, nets2)" and r2: "rooted p2"
    and e2: "rep_of p2 = rep_of p1"
    and n2: "nets_ok (rep_of p1) (insert (snd c) (insert (fst c) S)) nets2" by blast
  from n2 e2 have n2': "nets_ok (rep_of p2) (insert (snd c) (insert (fst c) S)) nets2" by simp
  from Cons.IH[OF r2 n2'] obtain p' nets' where
    g: "group_all (p2, nets2) cs = Some (p', nets')"
    and n: "nets_ok (rep_of p2) (insert (snd c) (insert (fst c) S) \<union> endpoints (set cs)) nets'" by blast
  have s: "insert (snd c) (insert (fst c) S) \<union> endpoints (set cs) = S \<union> endpoints (set (c # cs))"
    by (auto simp: endpoints_def)
  from g1 g2 g have "group_all (p, nets) (c # cs) = Some (p', nets')" by simp
  moreover from n have "nets_ok (rep_of p) (S \<union> endpoints (set (c # cs))) nets'"
    unfolding s e2 e1 .
  ultimately show ?case by blast
qed

lemma build_nets_ok:
  "\<exists>nets \<rho>. build_nets order = Some nets \<and> nets_ok \<rho> (endpoints (set order)) nets"
proof -
  from union_all_rooted[OF rooted_empty, of order] obtain p where
    u: "union_all Map.empty order = Some p" and r: "rooted p" by blast
  from group_all_ok[OF r nets_ok_empty, of order] obtain p' nets' where
    g: "group_all (p, []) order = Some (p', nets')"
    and n: "nets_ok (rep_of p) (endpoints (set order)) nets'" by auto
  from u g have "build_nets order = Some nets'" by (simp add: build_nets_def)
  with n show ?thesis by blast
qed

lemma nets_ok_entry:
  assumes "nets_ok \<rho> S nets" and "(k, s) \<in> set nets"
  shows "s = {x \<in> S. \<rho> x = k} \<and> s \<noteq> {}"
proof -
  from assms have "distinct (map fst nets)" by (simp add: nets_ok_def)
  with assms(2) have "map_of nets k = Some s" by simp
  moreover from assms(1) have "map_of nets k = (if k \<in> \<rho> ` S then Some {x \<in> S. \<rho> x = k} else None)"
    by (simp add: nets_ok_def)
  ultimately have "k \<in> \<rho> ` S" and "s = {x \<in> S. \<rho> x = k}" by (auto split: if_splits)
  then show ?thesis by auto
qed

lemma nets_ok_covers:
  assumes "nets_ok \<rho> S nets" and "x \<in> S"
  shows "(\<rho> x, {y \<in> S. \<rho> y = \<rho> x}) \<in> set nets"
proof -
  from assms have "map_of nets (\<rho> x) = Some {y \<in> S. \<rho> y = \<rho> x}" by (simp add: nets_ok_def)
  then show ?thesis by (rule map_of_SomeD)
qed

text \<open>
  C2: for every store, iterated in any order, \<open>build_nets\<close> returns, and its result is a
  partition of the endpoints: the keys are distinct, the member sets are not empty, their
  union is the set of all endpoints, two different entries have disjoint member sets, and
  every endpoint lies in the member set of exactly one entry.
\<close>

theorem build_nets_partition:
  "\<exists>nets. build_nets order = Some nets \<and>
     distinct (map fst nets) \<and>
     \<Union> (member_sets nets) = endpoints (set order) \<and>
     (\<forall>i < length nets. snd (nets ! i) \<noteq> {}) \<and>
     (\<forall>i < length nets. \<forall>j < length nets. i \<noteq> j \<longrightarrow> snd (nets ! i) \<inter> snd (nets ! j) = {}) \<and>
     (\<forall>x \<in> endpoints (set order). \<exists>!i. i < length nets \<and> x \<in> snd (nets ! i))"
proof -
  define S where "S = endpoints (set order)"
  from build_nets_ok[of order] obtain nets \<rho> where
    b: "build_nets order = Some nets" and ok: "nets_ok \<rho> S nets" unfolding S_def by blast
  from ok have d: "distinct (map fst nets)" by (simp add: nets_ok_def)
  have entry: "snd (nets ! i) = {x \<in> S. \<rho> x = fst (nets ! i)} \<and> snd (nets ! i) \<noteq> {}"
    if "i < length nets" for i
  proof -
    from that have "(fst (nets ! i), snd (nets ! i)) \<in> set nets" by simp
    with ok show ?thesis by (rule nets_ok_entry)
  qed
  have keys: "fst (nets ! i) \<noteq> fst (nets ! j)" if "i < length nets" "j < length nets" "i \<noteq> j" for i j
  proof -
    from that have "i < length (map fst nets)" "j < length (map fst nets)" by simp_all
    with d that(3) have "map fst nets ! i \<noteq> map fst nets ! j"
      using nth_eq_iff_index_eq[of "map fst nets" i j] by blast
    with that show ?thesis by simp
  qed
  have disj: "snd (nets ! i) \<inter> snd (nets ! j) = {}"
    if "i < length nets" "j < length nets" "i \<noteq> j" for i j
  proof -
    from entry[OF that(1)] entry[OF that(2)] keys[OF that] show ?thesis by auto
  qed
  have cover: "\<exists>i. i < length nets \<and> x \<in> snd (nets ! i)" if "x \<in> S" for x
  proof -
    from ok that have "(\<rho> x, {y \<in> S. \<rho> y = \<rho> x}) \<in> set nets" by (rule nets_ok_covers)
    then obtain i where "i < length nets" "nets ! i = (\<rho> x, {y \<in> S. \<rho> y = \<rho> x})"
      by (auto simp: in_set_conv_nth)
    with that show ?thesis by auto
  qed
  have un: "\<Union> (member_sets nets) = S"
  proof (rule set_eqI)
    fix x
    show "x \<in> \<Union> (member_sets nets) \<longleftrightarrow> x \<in> S"
    proof
      assume "x \<in> \<Union> (member_sets nets)"
      then obtain i where "i < length nets" "x \<in> snd (nets ! i)"
        by (auto simp: member_sets_def in_set_conv_nth)
      with entry[of i] show "x \<in> S" by auto
    next
      assume "x \<in> S"
      from cover[OF this] show "x \<in> \<Union> (member_sets nets)"
        by (auto simp: member_sets_def)
    qed
  qed
  have uniq: "\<exists>!i. i < length nets \<and> x \<in> snd (nets ! i)" if "x \<in> S" for x
  proof -
    from cover[OF that] obtain i where i: "i < length nets" "x \<in> snd (nets ! i)" by blast
    show ?thesis
    proof (rule ex1I[of _ i])
      show "i < length nets \<and> x \<in> snd (nets ! i)" using i by simp
    next
      fix j
      assume j: "j < length nets \<and> x \<in> snd (nets ! j)"
      show "j = i"
      proof (rule ccontr)
        assume "j \<noteq> i"
        with disj[of j i] i j show False by auto
      qed
    qed
  qed
  have ne: "\<forall>i < length nets. snd (nets ! i) \<noteq> {}"
    using entry by blast
  have dj: "\<forall>i < length nets. \<forall>j < length nets. i \<noteq> j \<longrightarrow> snd (nets ! i) \<inter> snd (nets ! j) = {}"
    using disj by blast
  have uq: "\<forall>x \<in> S. \<exists>!i. i < length nets \<and> x \<in> snd (nets ! i)"
    using uniq by blast
  have "build_nets order = Some nets \<and>
     distinct (map fst nets) \<and>
     \<Union> (member_sets nets) = S \<and>
     (\<forall>i < length nets. snd (nets ! i) \<noteq> {}) \<and>
     (\<forall>i < length nets. \<forall>j < length nets. i \<noteq> j \<longrightarrow> snd (nets ! i) \<inter> snd (nets ! j) = {}) \<and>
     (\<forall>x \<in> S. \<exists>!i. i < length nets \<and> x \<in> snd (nets ! i))"
    by (intro conjI) (rule b d un ne dj uq)+
  then show ?thesis unfolding S_def by (rule exI)
qed

theorem build_nets_partition_witness:
  "\<exists>nets. build_nets [(''A-1'', ''B-1''), (''C-1'', ''D-1'')] = Some nets \<and>
     \<Union> (member_sets nets) = {''A-1'', ''B-1'', ''C-1'', ''D-1''} \<and>
     member_sets nets = {{''A-1'', ''B-1''}, {''C-1'', ''D-1''}}"
proof -
  have e: "endpoints (set [(''A-1'', ''B-1''), (''C-1'', ''D-1'')]) = {''A-1'', ''B-1'', ''C-1'', ''D-1''}"
    by code_simp
  have v: "map_option member_sets (build_nets [(''A-1'', ''B-1''), (''C-1'', ''D-1'')]) =
             Some {{''A-1'', ''B-1''}, {''C-1'', ''D-1''}}"
    by code_simp
  from build_nets_partition[of "[(''A-1'', ''B-1''), (''C-1'', ''D-1'')]"] obtain nets where
    n: "build_nets [(''A-1'', ''B-1''), (''C-1'', ''D-1'')] = Some nets"
    and u: "\<Union> (member_sets nets) = endpoints (set [(''A-1'', ''B-1''), (''C-1'', ''D-1'')])"
    by blast
  from v n have m: "member_sets nets = {{''A-1'', ''B-1''}, {''C-1'', ''D-1''}}" by simp
  from n u m show ?thesis unfolding e by blast
qed

section \<open>Nets\<close>

lemma find_net_None:
  "List.find (\<lambda>net. x \<in> snd net) nets = None \<longleftrightarrow> x \<notin> \<Union> (member_sets nets)"
  by (auto simp: find_None_iff member_sets_def)

lemma find_net_Some:
  assumes "List.find (\<lambda>net. x \<in> snd net) nets = Some net"
  shows "net \<in> set nets \<and> x \<in> snd net"
  using assms by (auto simp: find_Some_iff)

lemma build_nets_union:
  "\<exists>nets. build_nets order = Some nets \<and> \<Union> (member_sets nets) = endpoints (set order)"
proof -
  from build_nets_ok[of order] obtain nets \<rho> where
    b: "build_nets order = Some nets" and ok: "nets_ok \<rho> (endpoints (set order)) nets" by blast
  have "\<Union> (member_sets nets) = endpoints (set order)"
  proof (rule set_eqI)
    fix x
    show "x \<in> \<Union> (member_sets nets) \<longleftrightarrow> x \<in> endpoints (set order)"
    proof
      assume "x \<in> \<Union> (member_sets nets)"
      then obtain k s where "(k, s) \<in> set nets" "x \<in> s" by (auto simp: member_sets_def)
      with nets_ok_entry[OF ok, of k s] show "x \<in> endpoints (set order)" by auto
    next
      assume "x \<in> endpoints (set order)"
      from nets_ok_covers[OF ok this]
      have "{y \<in> endpoints (set order). \<rho> y = \<rho> x} \<in> member_sets nets"
        unfolding member_sets_def by (rule image_eqI[rotated]) simp
      moreover have "x \<in> {y \<in> endpoints (set order). \<rho> y = \<rho> x}"
        using \<open>x \<in> endpoints (set order)\<close> by simp
      ultimately show "x \<in> \<Union> (member_sets nets)" by (rule UnionI)
    qed
  qed
  with b show ?thesis by blast
qed

lemma name_net_compound:
  assumes "parse_pin (components st) pin0 = Inr (Some (ref, Some l))"
  shows "(ref @ ''-'' @ l \<in> endpoints (set order) \<longrightarrow>
           (\<exists>nets net. build_nets order = Some nets \<and> net \<in> set nets \<and> ref @ ''-'' @ l \<in> snd net \<and>
              name_net st order pin0 name =
                Some (Inr (True, st\<lparr>net_names := AList.update (fst net) name (net_names st)\<rparr>)))) \<and>
         (ref @ ''-'' @ l \<notin> endpoints (set order) \<longrightarrow>
            name_net st order pin0 name = Some (Inr (False, st)))"
proof -
  from build_nets_union[of order] obtain nets where
    b: "build_nets order = Some nets" and u: "\<Union> (member_sets nets) = endpoints (set order)" by blast
  let ?x = "ref @ ''-'' @ l"
  have n: "name_net st order pin0 name =
             (case List.find (\<lambda>net. ?x \<in> snd net) nets of
                Some net \<Rightarrow> Some (Inr (True, st\<lparr>net_names := AList.update (fst net) name (net_names st)\<rparr>))
              | None \<Rightarrow> Some (Inr (False, st)))"
    by (simp add: name_net_def assms b label_str_def Let_def)
  show ?thesis
  proof (cases "List.find (\<lambda>net. ?x \<in> snd net) nets")
    case None
    then have "?x \<notin> endpoints (set order)" using u by (simp add: find_net_None)
    with None n show ?thesis by simp
  next
    case (Some net)
    from find_net_Some[OF Some] have m: "net \<in> set nets" "?x \<in> snd net" by simp_all
    then have "?x \<in> \<Union> (member_sets nets)" by (auto simp: member_sets_def)
    with u have "?x \<in> endpoints (set order)" by simp
    moreover from n Some have "name_net st order pin0 name =
        Some (Inr (True, st\<lparr>net_names := AList.update (fst net) name (net_names st)\<rparr>))" by simp
    ultimately show ?thesis using b m by blast
  qed
qed

text \<open>
  C4: \<open>name_net\<close> fails only for a pin without connections. That holds for a pin
  with a label (\<open>name_net_compound\<close>). For the one-pin component
  \<open>GND\<close>, stored under its bare reference and connected to \<open>R01-1\<close>, the membership test
  looks for \<open>GND-None\<close>, finds no net and leaves the registry unchanged.
\<close>

theorem name_net_single_pin_fails:
  "add_component empty_project ''GND'' (Some 1) = Inr gnd_declared \<and>
   add_connection gnd_declared ''GND'' ''R1-1'' = Inr (True, gnd_project) \<and>
   parse_pin (components gnd_project) ''GND'' = Inr (Some (''GND'', None)) \<and>
   connections gnd_project = {(''GND'', ''R01-1'')} \<and>
   iteration_of [(''GND'', ''R01-1'')] (connections gnd_project) \<and>
   map_option member_sets (build_nets [(''GND'', ''R01-1'')]) = Some {{''GND'', ''R01-1''}} \<and>
   name_net gnd_project [(''GND'', ''R01-1'')] ''GND'' ''Ground'' = Some (Inr (False, gnd_project))"
  by code_simp

text \<open>
  C3, as the specification words it, fails: after \<open>A-1~B-1\<close> is removed the store holds
  the one pair \<open>B-1~C-1\<close>, and \<open>build_nets\<close> returns the one net \<open>{B-1, C-1}\<close>; there
  is no net \<open>{A-1}\<close>.
\<close>

theorem split_net_counterexample:
  "delete_connection split_before ''A-1'' ''B-1'' = Inr (True, split_after) \<and>
   iteration_of [(''B-1'', ''C-1'')] (connections split_after) \<and>
   map_option member_sets (build_nets [(''B-1'', ''C-1'')]) \<noteq>
     Some {{''A-1''}, {''B-1'', ''C-1''}}"
  by code_simp

text \<open>
  C3, amended: with the pairs \<open>A-1~B-1\<close> and \<open>B-1~C-1\<close> stored, \<open>build_nets\<close> returns
  the one net \<open>{A-1, B-1, C-1}\<close>, in whichever order the store is iterated; after
  \<open>A-1~B-1\<close> is removed it returns the one net \<open>{B-1, C-1}\<close>, and \<open>A-1\<close>, which has no
  connection left, is in no net.
\<close>

theorem split_net:
  "add_connection empty_project ''A-1'' ''B-1'' = Inr (True, split_first) \<and>
   add_connection split_first ''B-1'' ''C-1'' = Inr (True, split_before) \<and>
   connections split_before = {(''A-1'', ''B-1''), (''B-1'', ''C-1'')} \<and>
   map_option member_sets (build_nets [(''A-1'', ''B-1''), (''B-1'', ''C-1'')]) =
     Some {{''A-1'', ''B-1'', ''C-1''}} \<and>
   map_option member_sets (build_nets [(''B-1'', ''C-1''), (''A-1'', ''B-1'')]) =
     Some {{''A-1'', ''B-1'', ''C-1''}} \<and>
   delete_connection split_before ''A-1'' ''B-1'' = Inr (True, split_after) \<and>
   connections split_after = {(''B-1'', ''C-1'')} \<and>
   map_option member_sets (build_nets [(''B-1'', ''C-1'')]) = Some {{''B-1'', ''C-1''}}"
  by code_simp


end
